theory Spec2Isabelle
  imports
    Main
    "HOL-Library.AList"
    "HOL-Library.Char_ord"
    "HOL-Library.List_Lexorder"
    "HOL-Library.Multiset"
    "HOL-Library.Product_Lexorder"
begin

section \<open>Data model\<close>

text \<open>
  Exam identifiers are Python strings; they are compared lexicographically, character by
  character. A Python \<open>dict\<close> is modelled as an association list of its items (keys
  pairwise different), a Python \<open>set\<close> as a list of its elements, and Python's unbounded
  integers as \<open>int\<close>.
\<close>

type_synonym exam = string
type_synonym student = string

text \<open>The adjacency argument of \<open>welsh_powell\<close>: each key with the collection of its neighbours.\<close>

type_synonym adjacency = "(exam \<times> exam list) list"

text \<open>The dictionary \<open>color\<close>: exam to slot number.\<close>

type_synonym coloring = "(exam \<times> int) list"

text \<open>\<open>k in d\<close> for a dictionary \<open>d\<close>.\<close>

definition has_key :: "'k \<Rightarrow> ('k \<times> 'v) list \<Rightarrow> bool" where
  "has_key k d = (k \<in> fst ` set d)"

text \<open>\<open>d[k]\<close>. Python raises \<open>KeyError\<close> for a missing key; the functions below read
  \<open>full\<close> and \<open>conflicts\<close> only at keys these dictionaries were created with, and \<open>color\<close> only
  behind the test \<open>nbr in color\<close>.\<close>

definition lookup :: "('k \<times> 'v) list \<Rightarrow> 'k \<Rightarrow> 'v" where
  "lookup d k = the (map_of d k)"

text \<open>\<open>d[k].add(x)\<close> for a dictionary of sets; the key is present wherever the source does
  this (lemmas \<open>map_fst_full_of\<close>, \<open>set_vertices_of\<close> and \<open>build_conflicts_keys\<close>).\<close>

definition dict_add :: "'k \<Rightarrow> 'a \<Rightarrow> ('k \<times> 'a list) list \<Rightarrow> ('k \<times> 'a list) list" where
  "dict_add k x d = AList.map_entry k (List.insert x) d"

section \<open>The colouring engine\<close>

text \<open>Lines 11 to 14: the keys of \<open>adj\<close>, then every neighbour added.\<close>

definition vertices_of :: "adjacency \<Rightarrow> exam list" where
  "vertices_of adj =
     fold (\<lambda>(v, neigh) vertices. fold List.insert neigh vertices) adj (remdups (map fst adj))"

text \<open>Lines 16 to 20: an empty set per vertex, then both directions of every listed pair.\<close>

definition full_of :: "adjacency \<Rightarrow> (exam \<times> exam list) list" where
  "full_of adj =
     fold (\<lambda>(v, neigh) full. fold (\<lambda>u full. dict_add u v (dict_add v u full)) neigh full)
       adj (map (\<lambda>v. (v, [])) (vertices_of adj))"

text \<open>Line 22: the sort key \<open>(-len(full[x]), str(x))\<close>; \<open>str\<close> is the identity on strings.\<close>

definition order_key :: "(exam \<times> exam list) list \<Rightarrow> exam \<Rightarrow> int \<times> exam" where
  "order_key full x = (- int (length (lookup full x)), x)"

definition order_of :: "(exam \<times> exam list) list \<Rightarrow> exam list" where
  "order_of full = sort_key (order_key full) (map fst full)"

text \<open>Lines 31 to 34: the body of the inner loop, for one \<open>u\<close>.\<close>

definition inner_step ::
  "(exam \<times> exam list) list \<Rightarrow> exam \<Rightarrow> int \<Rightarrow> exam \<Rightarrow> coloring \<Rightarrow> coloring" where
  "inner_step full v current_color u color =
     (if \<not> has_key u color then
        if (\<forall>nbr \<in> set (lookup full u). \<not> has_key nbr color \<or> lookup color nbr \<noteq> current_color) then
          if v \<noteq> u then AList.update u current_color color else color
        else color
      else color)"

text \<open>Lines 28 to 35: the body of the outer loop, for one \<open>v\<close>; the state is the pair of
  \<open>color\<close> and \<open>current_color\<close>.\<close>

definition outer_step ::
  "(exam \<times> exam list) list \<Rightarrow> exam list \<Rightarrow> exam \<Rightarrow> coloring \<times> int \<Rightarrow> coloring \<times> int" where
  "outer_step full order v st =
     (case st of (color, current_color) \<Rightarrow>
        if \<not> has_key v color then
          (fold (inner_step full v current_color) order (AList.update v current_color color),
           current_color + 1)
        else (color, current_color))"

definition welsh_powell :: "adjacency \<Rightarrow> coloring" where
  "welsh_powell adj =
     (let full = full_of adj;
          order = order_of full
      in fst (fold (outer_step full order) order ([], 1)))"

section \<open>The conflict graph builder\<close>

text \<open>Lines 54 to 58: all index pairs \<open>i < j\<close> of one student's list.\<close>

definition add_student ::
  "exam list \<Rightarrow> (exam \<times> exam list) list \<Rightarrow> (exam \<times> exam list) list" where
  "add_student courses conflicts =
     fold (\<lambda>i conflicts.
        fold (\<lambda>j conflicts.
           (let a = courses ! i; b = courses ! j
            in dict_add b a (dict_add a b conflicts)))
          [i + 1 ..< length courses] conflicts)
       [0 ..< length courses] conflicts"

text \<open>Lines 50 to 60: one empty set per exam, the exams in sorted order, then the pairs of
  every student.\<close>

definition build_conflicts_from_enrollments ::
  "(student \<times> exam list) list \<Rightarrow> (exam \<times> exam list) list" where
  "build_conflicts_from_enrollments enrollments =
     (let exams = sort (remdups (concat (map snd enrollments)));
          conflicts = map (\<lambda>e. (e, [])) exams
      in fold (\<lambda>(student, courses) conflicts. add_student courses conflicts)
           enrollments conflicts)"

section \<open>The schedule mapper\<close>

text \<open>One row of the returned table, with the columns of lines 106 to 112.\<close>

record row =
  Exam :: exam
  Slot :: int
  start :: int
  duration :: int
  TimeLabel :: string

text \<open>Decimal digits of a natural number, most significant first.\<close>

fun digits :: "nat \<Rightarrow> string" where
  "digits n =
     (if n < 10 then [''0123456789'' ! n]
      else digits (n div 10) @ [''0123456789'' ! (n mod 10)])"

declare digits.simps [simp del]

text \<open>\<open>str(n)\<close> for an integer.\<close>

definition str_int :: "int \<Rightarrow> string" where
  "str_int n = (if n < 0 then ''-'' @ digits (nat (- n)) else digits (nat n))"

text \<open>The format \<open>02d\<close>: sign first, then zeros up to a total width of two.\<close>

definition fmt_02d :: "int \<Rightarrow> string" where
  "fmt_02d n =
     (if n < 0 then ''-'' @ digits (nat (- n))
      else if n < 10 then ''0'' @ digits (nat n)
      else digits (nat n))"

text \<open>Lines 103 to 113: the items sorted by the pair of slot and exam, one row for each.\<close>

definition schedule_from_coloring :: "coloring \<Rightarrow> int \<Rightarrow> int \<Rightarrow> row list" where
  "schedule_from_coloring coloring slot_start_hour slot_duration =
     map (\<lambda>(exam, c).
       (let start = slot_start_hour + (c - 1) * slot_duration
        in \<lparr> Exam = exam, Slot = c, start = start, duration = slot_duration,
             TimeLabel = ''Slot '' @ str_int c @ '' ('' @ fmt_02d start @ '':00 - ''
                         @ fmt_02d (start + slot_duration) @ '':00)'' \<rparr>))
       (sort_key (\<lambda>x. (snd x, fst x)) coloring)"

section \<open>Notions the properties are stated with\<close>

text \<open>The listed pairs of an adjacency: \<open>(v, u)\<close> for every key \<open>v\<close> and every \<open>u\<close> among its
  neighbours.\<close>

definition edges_of :: "adjacency \<Rightarrow> (exam \<times> exam) set" where
  "edges_of adj = set (concat (map (\<lambda>(v, neigh). map (Pair v) neigh) adj))"

text \<open>The neighbours of a vertex once every listed pair is read in both directions.\<close>

definition sym_nbrs :: "adjacency \<Rightarrow> exam \<Rightarrow> exam set" where
  "sym_nbrs adj a =
     snd ` {e \<in> edges_of adj. fst e = a} \<union> fst ` {e \<in> edges_of adj. snd e = a}"

definition degree :: "adjacency \<Rightarrow> exam \<Rightarrow> nat" where
  "degree adj x = card (sym_nbrs adj x)"

text \<open>The set stored under a key of a dictionary of sets, empty where the key is missing.\<close>

definition nbrs :: "(exam \<times> exam list) list \<Rightarrow> exam \<Rightarrow> exam set" where
  "nbrs d k = (case map_of d k of None \<Rightarrow> {} | Some s \<Rightarrow> set s)"

text \<open>A list of items is a dictionary of sets when no key and no element is repeated.\<close>

definition wf_dict :: "(exam \<times> exam list) list \<Rightarrow> bool" where
  "wf_dict d = (distinct (map fst d) \<and> (\<forall>(k, s) \<in> set d. distinct s))"

text \<open>The three tests of lines 31 to 33 together, read on the dictionary as a map.\<close>

definition inner_cond ::
  "(exam \<times> exam list) list \<Rightarrow> exam \<Rightarrow> int \<Rightarrow> exam \<Rightarrow> coloring \<Rightarrow> bool" where
  "inner_cond full v cc u color =
     (map_of color u = None \<and> (\<forall>nbr \<in> set (lookup full u). map_of color nbr \<noteq> Some cc)
      \<and> v \<noteq> u)"

text \<open>A partial colouring is proper when no two different adjacent coloured vertices share a
  colour.\<close>

definition pp :: "adjacency \<Rightarrow> (exam \<rightharpoonup> int) \<Rightarrow> bool" where
  "pp adj m = (\<forall>a b c. b \<in> sym_nbrs adj a \<longrightarrow> a \<noteq> b \<longrightarrow> m a = Some c \<longrightarrow> m b \<noteq> Some c)"

text \<open>What the inner loop keeps while it grows the class of colour \<open>cc\<close> from the map \<open>m0\<close>.\<close>

definition inner_inv :: "adjacency \<Rightarrow> int \<Rightarrow> (exam \<rightharpoonup> int) \<Rightarrow> coloring \<Rightarrow> bool" where
  "inner_inv adj cc m0 color =
     (distinct (map fst color) \<and> fst ` set color \<subseteq> set (vertices_of adj)
      \<and> pp adj (map_of color) \<and> m0 \<subseteq>\<^sub>m map_of color
      \<and> (\<forall>a c. map_of color a = Some c \<longrightarrow> m0 a = Some c \<or> c = cc))"

text \<open>What the outer loop keeps: the colours in use are exactly those from 1 up to, and not
  including, \<open>current_color\<close>.\<close>

definition outer_inv :: "adjacency \<Rightarrow> coloring \<times> int \<Rightarrow> bool" where
  "outer_inv adj st =
     (case st of (color, cc) \<Rightarrow>
        distinct (map fst color) \<and> fst ` set color \<subseteq> set (vertices_of adj)
        \<and> pp adj (map_of color)
        \<and> (\<forall>a c. map_of color a = Some c \<longrightarrow> 1 \<le> c \<and> c < cc)
        \<and> (\<forall>c. 1 \<le> c \<and> c < cc \<longrightarrow> (\<exists>a. map_of color a = Some c))
        \<and> 1 \<le> cc)"

text \<open>The pair of \<open>color\<close> and \<open>current_color\<close> when the outer loop ends.\<close>

definition final_state :: "adjacency \<Rightarrow> coloring \<times> int" where
  "final_state adj =
     fold (outer_step (full_of adj) (order_of (full_of adj))) (order_of (full_of adj)) ([], 1)"

text \<open>\<open>a\<close> stands before \<open>b\<close> in a list.\<close>

definition precedes :: "'a list \<Rightarrow> 'a \<Rightarrow> 'a \<Rightarrow> bool" where
  "precedes xs a b = (\<exists>i j. i < j \<and> j < length xs \<and> xs ! i = a \<and> xs ! j = b)"

text \<open>A vertex is blocked for a colour when a neighbour that stands before it in the
  processing order carries that colour.\<close>

definition blocked ::
  "adjacency \<Rightarrow> exam list \<Rightarrow> (exam \<rightharpoonup> int) \<Rightarrow> exam \<Rightarrow> int \<Rightarrow> bool" where
  "blocked adj os m u c = (\<exists>w. precedes os w u \<and> w \<in> sym_nbrs adj u \<and> m w = Some c)"

text \<open>What one run of the inner loop keeps after it has scanned the part \<open>pre\<close> of the order:
  the colour \<open>cc\<close> is carried by the seed \<open>v\<close> and by scanned vertices only, and every scanned
  vertex left without a colour is blocked for \<open>cc\<close>.\<close>

definition scan_inv ::
  "adjacency \<Rightarrow> exam list \<Rightarrow> exam \<Rightarrow> int \<Rightarrow> (exam \<rightharpoonup> int) \<Rightarrow> exam list \<Rightarrow> coloring \<Rightarrow> bool"
  where
  "scan_inv adj os v cc m0 pre color =
     (inner_inv adj cc m0 color
      \<and> (\<forall>w. map_of color w = Some cc \<longrightarrow> w = v \<or> w \<in> set pre)
      \<and> (\<forall>u \<in> set pre. map_of color u = None \<longrightarrow> blocked adj os (map_of color) u cc))"

text \<open>What the outer loop keeps after the part \<open>pre\<close> of the order: the vertices of \<open>pre\<close> are
  coloured, a coloured vertex is blocked for every smaller colour, and a vertex without a
  colour is blocked for every colour of a finished class.\<close>

definition first_fit_inv ::
  "adjacency \<Rightarrow> exam list \<Rightarrow> exam list \<Rightarrow> coloring \<times> int \<Rightarrow> bool" where
  "first_fit_inv adj os pre st =
     (case st of (color, cc) \<Rightarrow>
        outer_inv adj (color, cc)
        \<and> set pre \<subseteq> fst ` set color
        \<and> (\<forall>u c. map_of color u = Some c \<longrightarrow>
              (\<forall>c'. 1 \<le> c' \<and> c' < c \<longrightarrow> blocked adj os (map_of color) u c'))
        \<and> (\<forall>u \<in> set os. map_of color u = None \<longrightarrow>
              (\<forall>c'. 1 \<le> c' \<and> c' < cc \<longrightarrow> blocked adj os (map_of color) u c')))"

text \<open>The exam pairs that lines 54 to 56 enumerate for one student, in the order of the two
  loops, and those of all students.\<close>

definition index_pairs :: "exam list \<Rightarrow> (exam \<times> exam) list" where
  "index_pairs courses =
     concat (map (\<lambda>i. map (\<lambda>j. (courses ! i, courses ! j)) [i + 1 ..< length courses])
       [0 ..< length courses])"

definition all_pairs :: "(student \<times> exam list) list \<Rightarrow> (exam \<times> exam) list" where
  "all_pairs enrollments =
     concat (map (\<lambda>(student, courses). index_pairs courses) enrollments)"

text \<open>Lines 57 and 58 for one pair.\<close>

definition add_pair ::
  "exam \<times> exam \<Rightarrow> (exam \<times> exam list) list \<Rightarrow> (exam \<times> exam list) list" where
  "add_pair p conflicts = dict_add (snd p) (fst p) (dict_add (fst p) (snd p) conflicts)"

section \<open>Vertices and the symmetrised adjacency\<close>

lemma fold_invariant:
  "P s \<Longrightarrow> (\<And>x s. x \<in> set xs \<Longrightarrow> P s \<Longrightarrow> P (f x s)) \<Longrightarrow> P (fold f xs s)"
  by (induction xs arbitrary: s) auto

lemma edges_of_iff:
  "(v, u) \<in> edges_of adj \<longleftrightarrow> (\<exists>neigh. (v, neigh) \<in> set adj \<and> u \<in> set neigh)"
  by (auto simp: edges_of_def)

lemma edges_of_Nil: "edges_of [] = {}"
  by (simp add: edges_of_def)

lemma edges_of_Cons: "edges_of ((v, neigh) # adj) = Pair v ` set neigh \<union> edges_of adj"
  by (auto simp: edges_of_def)

lemma sym_nbrs_eq: "sym_nbrs adj a = {b. (a, b) \<in> edges_of adj \<or> (b, a) \<in> edges_of adj}"
  by (force simp: sym_nbrs_def)

lemma sym_nbrs_iff: "b \<in> sym_nbrs adj a \<longleftrightarrow> (a, b) \<in> edges_of adj \<or> (b, a) \<in> edges_of adj"
  by (simp add: sym_nbrs_eq)

lemma sym_nbrs_sym: "b \<in> sym_nbrs adj a \<longleftrightarrow> a \<in> sym_nbrs adj b"
  by (auto simp: sym_nbrs_iff)

lemma set_fold_insert: "set (fold List.insert xs ys) = set xs \<union> set ys"
  by (induction xs arbitrary: ys) auto

lemma distinct_fold_insert: "distinct ys \<Longrightarrow> distinct (fold List.insert xs ys)"
  by (induction xs arbitrary: ys) auto

lemma set_fold_neigh:
  "set (fold (\<lambda>(v, neigh) vertices. fold List.insert neigh vertices) adj vs)
     = set vs \<union> snd ` edges_of adj"
  by (induction adj arbitrary: vs)
    (auto simp: edges_of_Nil edges_of_Cons set_fold_insert image_Un image_image)

lemma distinct_fold_neigh:
  "distinct vs \<Longrightarrow>
   distinct (fold (\<lambda>(v, neigh) vertices. fold List.insert neigh vertices) adj vs)"
  by (induction adj arbitrary: vs) (auto simp: distinct_fold_insert)

lemma set_vertices_of: "set (vertices_of adj) = fst ` set adj \<union> snd ` edges_of adj"
  by (simp add: vertices_of_def set_fold_neigh)

lemma distinct_vertices_of: "distinct (vertices_of adj)"
  by (simp add: vertices_of_def distinct_fold_neigh)

lemma edge_endpoints:
  assumes e: "(a, b) \<in> edges_of adj"
  shows "a \<in> set (vertices_of adj) \<and> b \<in> set (vertices_of adj)"
proof -
  obtain neigh where "(a, neigh) \<in> set adj" using e by (auto simp: edges_of_iff)
  then have "a \<in> fst ` set adj" by force
  moreover have "b \<in> snd ` edges_of adj" using e by force
  ultimately show ?thesis by (simp add: set_vertices_of)
qed

lemma key_map_of: "k \<in> set (map fst d) \<Longrightarrow> \<exists>s. map_of d k = Some s"
  by (induction d) auto

lemma has_key_map_of: "has_key k d \<longleftrightarrow> map_of d k \<noteq> None"
  by (simp add: has_key_def map_of_eq_None_iff)

lemma map_fst_map_entry: "map fst (AList.map_entry k f d) = map fst d"
  by (induction d) auto

lemma map_fst_dict_add: "map fst (dict_add k x d) = map fst d"
  by (simp add: dict_add_def map_fst_map_entry)

lemma keys_dict_add: "fst ` set (dict_add k x d) = fst ` set d"
  by (simp add: dict_add_def dom_map_entry)

lemma nbrs_dict_add:
  "nbrs (dict_add k x d) a =
     (if a = k \<and> k \<in> fst ` set d then insert x (nbrs d a) else nbrs d a)"
  by (auto simp: nbrs_def dict_add_def map_of_map_entry map_of_eq_None_iff
      split: option.splits dest!: map_of_SomeD intro: rev_image_eqI)

lemma set_map_entry:
  "(a, s) \<in> set (AList.map_entry k f d) \<Longrightarrow>
   (a, s) \<in> set d \<or> (\<exists>s'. (a, s') \<in> set d \<and> s = f s')"
  by (induction d) (auto split: if_splits)

lemma wf_dict_add: "wf_dict d \<Longrightarrow> wf_dict (dict_add k x d)"
  unfolding wf_dict_def
  by (auto simp: map_fst_map_entry dict_add_def dest!: set_map_entry)

lemma nbrs_fold_neigh:
  "v \<in> fst ` set d \<Longrightarrow> set neigh \<subseteq> fst ` set d \<Longrightarrow>
   nbrs (fold (\<lambda>u full. dict_add u v (dict_add v u full)) neigh d) a
     = nbrs d a \<union> {b. (a = v \<and> b \<in> set neigh) \<or> (b = v \<and> a \<in> set neigh)}"
proof (induction neigh arbitrary: d)
  case Nil
  then show ?case by simp
next
  case (Cons u neigh)
  let ?d = "dict_add u v (dict_add v u d)"
  have keys: "fst ` set ?d = fst ` set d" by (simp add: keys_dict_add)
  have "nbrs (fold (\<lambda>u full. dict_add u v (dict_add v u full)) neigh ?d) a
     = nbrs ?d a \<union> {b. (a = v \<and> b \<in> set neigh) \<or> (b = v \<and> a \<in> set neigh)}"
    using Cons.prems by (intro Cons.IH) (simp_all add: keys)
  moreover have "nbrs ?d a = nbrs d a \<union> {b. (a = v \<and> b = u) \<or> (b = v \<and> a = u)}"
    using Cons.prems by (auto simp: nbrs_dict_add keys_dict_add)
  ultimately show ?case by auto
qed

lemma map_fst_fold_neigh:
  "map fst (fold (\<lambda>u full. dict_add u v (dict_add v u full)) neigh d) = map fst d"
  by (induction neigh arbitrary: d) (simp_all add: map_fst_dict_add)

lemma wf_fold_neigh:
  "wf_dict d \<Longrightarrow> wf_dict (fold (\<lambda>u full. dict_add u v (dict_add v u full)) neigh d)"
  by (induction neigh arbitrary: d) (simp_all add: wf_dict_add)

lemma map_fst_fold_adj:
  "map fst (fold (\<lambda>(v, neigh) full.
      fold (\<lambda>u full. dict_add u v (dict_add v u full)) neigh full) adj d) = map fst d"
  by (induction adj arbitrary: d) (auto simp: map_fst_fold_neigh)

lemma wf_fold_adj:
  "wf_dict d \<Longrightarrow>
   wf_dict (fold (\<lambda>(v, neigh) full.
      fold (\<lambda>u full. dict_add u v (dict_add v u full)) neigh full) adj d)"
  by (induction adj arbitrary: d) (auto simp: wf_fold_neigh)

lemma nbrs_fold_adj:
  "fst ` set adj \<union> snd ` edges_of adj \<subseteq> fst ` set d \<Longrightarrow>
   nbrs (fold (\<lambda>(v, neigh) full.
      fold (\<lambda>u full. dict_add u v (dict_add v u full)) neigh full) adj d) a
     = nbrs d a \<union> sym_nbrs adj a"
proof (induction adj arbitrary: d)
  case Nil
  then show ?case by (simp add: sym_nbrs_eq edges_of_Nil)
next
  case (Cons p adj)
  obtain v neigh where p: "p = (v, neigh)" by (cases p)
  let ?d = "fold (\<lambda>u full. dict_add u v (dict_add v u full)) neigh d"
  have keys: "fst ` set ?d = fst ` set d"
    using map_fst_fold_neigh [of v neigh d] by (metis set_map)
  have v: "v \<in> fst ` set d" and n: "set neigh \<subseteq> fst ` set d"
    using Cons.prems by (auto simp: p edges_of_Cons image_Un image_image)
  have rest: "fst ` set adj \<union> snd ` edges_of adj \<subseteq> fst ` set ?d"
    using Cons.prems by (auto simp: p edges_of_Cons keys)
  show ?case
    unfolding p using Cons.IH [OF rest] nbrs_fold_neigh [OF v n, of a]
    by (auto simp: sym_nbrs_eq edges_of_Cons)
qed

text \<open>The keys of \<open>full\<close> are the collected vertices at every moment of the loop of lines 17
  to 20, so the reads \<open>full[v]\<close> and \<open>full[u]\<close> there, and \<open>full[x]\<close> and \<open>full[u]\<close> later,
  find their key.\<close>

lemma map_fst_full_of: "map fst (full_of adj) = vertices_of adj"
  by (simp add: full_of_def map_fst_fold_adj comp_def)

lemma wf_full_of: "wf_dict (full_of adj)"
  unfolding full_of_def
  by (rule wf_fold_adj) (simp add: wf_dict_def comp_def distinct_vertices_of)

lemma nbrs_full_of: "nbrs (full_of adj) a = sym_nbrs adj a"
proof -
  have "nbrs (map (\<lambda>v. (v, [])) (vertices_of adj)) a = {}"
    by (auto simp: nbrs_def split: option.splits dest!: map_of_SomeD)
  moreover have "fst ` set adj \<union> snd ` edges_of adj
      \<subseteq> fst ` set (map (\<lambda>v. (v, [])) (vertices_of adj))"
    by (simp add: image_image set_vertices_of)
  ultimately show ?thesis
    unfolding full_of_def
    using nbrs_fold_adj [of adj "map (\<lambda>v. (v, [])) (vertices_of adj)" a] by simp
qed

lemma lookup_full_of:
  "a \<in> set (vertices_of adj) \<Longrightarrow> set (lookup (full_of adj) a) = sym_nbrs adj a"
  using nbrs_full_of [of adj a] map_fst_full_of [of adj] key_map_of [of a "full_of adj"]
  by (auto simp: nbrs_def lookup_def split: option.splits)

lemma distinct_lookup_full_of:
  "a \<in> set (vertices_of adj) \<Longrightarrow> distinct (lookup (full_of adj) a)"
  using wf_full_of [of adj] map_fst_full_of [of adj] key_map_of [of a "full_of adj"]
  by (auto simp: wf_dict_def lookup_def split: option.splits dest!: map_of_SomeD)

lemma degree_full_of:
  "x \<in> set (vertices_of adj) \<Longrightarrow> length (lookup (full_of adj) x) = degree adj x"
  using distinct_card [OF distinct_lookup_full_of, of x adj]
  by (simp add: degree_def lookup_full_of)

section \<open>The processing order\<close>

lemma set_order_of: "set (order_of full) = fst ` set full"
  by (simp add: order_of_def)

lemma distinct_order_of: "distinct (map fst full) \<Longrightarrow> distinct (order_of full)"
  by (simp add: order_of_def)

lemma sorted_order_of: "sorted (map (order_key full) (order_of full))"
  by (simp add: order_of_def)

lemma set_order_full_of: "set (order_of (full_of adj)) = set (vertices_of adj)"
  using map_fst_full_of [of adj] set_order_of [of "full_of adj"] by (metis set_map)

lemma distinct_order_full_of: "distinct (order_of (full_of adj))"
  by (rule distinct_order_of) (simp add: map_fst_full_of distinct_vertices_of)

lemma order_key_full_of:
  "x \<in> set (vertices_of adj) \<Longrightarrow> order_key (full_of adj) x = (- int (degree adj x), x)"
  by (simp add: order_key_def degree_full_of)

section \<open>The loops\<close>

text \<open>The test of line 32 asks that no neighbour carries the current colour.\<close>

lemma nbr_check:
  "(\<forall>nbr \<in> set ns. \<not> has_key nbr color \<or> lookup color nbr \<noteq> cc)
     \<longleftrightarrow> (\<forall>nbr \<in> set ns. map_of color nbr \<noteq> Some cc)"
  by (auto simp: has_key_map_of lookup_def)

lemma inner_step_cond:
  "inner_step full v cc u color =
     (if inner_cond full v cc u color then AList.update u cc color else color)"
  unfolding inner_step_def inner_cond_def nbr_check by (simp add: has_key_map_of)

lemma map_of_inner_step:
  "map_of (inner_step full v cc u color) =
     (if inner_cond full v cc u color then (map_of color)(u \<mapsto> cc) else map_of color)"
  by (simp add: inner_step_cond AList.update_conv')

lemma distinct_inner_step:
  "distinct (map fst color) \<Longrightarrow> distinct (map fst (inner_step full v cc u color))"
  by (simp add: inner_step_def AList.distinct_update)

lemma pp_fresh:
  assumes "pp adj m" and "\<forall>a. m a \<noteq> Some cc"
  shows "pp adj (m(v \<mapsto> cc))"
  using assms unfolding pp_def by auto

lemma pp_grow:
  assumes "pp adj m" and "\<forall>nbr \<in> sym_nbrs adj u. m nbr \<noteq> Some cc"
  shows "pp adj (m(u \<mapsto> cc))"
  unfolding pp_def
proof (intro allI impI)
  fix a b c
  assume ab: "b \<in> sym_nbrs adj a" and ne: "a \<noteq> b" and ma: "(m(u \<mapsto> cc)) a = Some c"
  show "(m(u \<mapsto> cc)) b \<noteq> Some c"
  proof (cases "a = u")
    case True
    then have "c = cc" using ma by simp
    moreover have "m b \<noteq> Some cc" using assms(2) ab True by blast
    ultimately show ?thesis using ne True by simp
  next
    case False
    then have ma': "m a = Some c" using ma by simp
    show ?thesis
    proof (cases "b = u")
      case True
      then have "a \<in> sym_nbrs adj u" using ab sym_nbrs_sym by blast
      then have "m a \<noteq> Some cc" using assms(2) by blast
      then have "c \<noteq> cc" using ma' by auto
      then show ?thesis using True by simp
    next
      case False
      then show ?thesis using assms(1) ab ne ma' unfolding pp_def by auto
    qed
  qed
qed

lemma inner_step_inv:
  assumes u: "u \<in> set (vertices_of adj)" and inv: "inner_inv adj cc m0 color"
  shows "inner_inv adj cc m0 (inner_step (full_of adj) v cc u color)"
proof (cases "inner_cond (full_of adj) v cc u color")
  case False
  then have "inner_step (full_of adj) v cc u color = color"
    by (simp add: inner_step_cond)
  then show ?thesis using inv by simp
next
  case True
  let ?m = "map_of color"
  have m': "map_of (inner_step (full_of adj) v cc u color) = ?m(u \<mapsto> cc)"
    using True by (simp add: map_of_inner_step)
  have un: "?m u = None" using True by (simp add: inner_cond_def)
  have chk: "\<forall>nbr \<in> sym_nbrs adj u. ?m nbr \<noteq> Some cc"
    using True u by (simp add: inner_cond_def lookup_full_of)
  have keys: "fst ` set (inner_step (full_of adj) v cc u color) = insert u (fst ` set color)"
    using m' by (metis dom_fun_upd dom_map_of_conv_image_fst option.distinct(1))
  have le: "m0 \<subseteq>\<^sub>m ?m" using inv by (simp add: inner_inv_def)
  have "m0 u = None"
    using le un unfolding map_le_def by (metis domIff)
  then have "m0 \<subseteq>\<^sub>m ?m(u \<mapsto> cc)"
    using le unfolding map_le_def by (auto simp: domIff)
  moreover have "pp adj (?m(u \<mapsto> cc))"
    using inv chk by (auto simp: inner_inv_def intro: pp_grow)
  ultimately show ?thesis
    using inv u unfolding inner_inv_def
    by (auto simp: m' keys distinct_inner_step split: if_splits)
qed

lemma inner_loop_inv:
  assumes "set us \<subseteq> set (vertices_of adj)" and "inner_inv adj cc m0 color"
  shows "inner_inv adj cc m0 (fold (inner_step (full_of adj) v cc) us color)"
  using assms(2)
  by (rule fold_invariant) (use assms(1) in \<open>auto intro: inner_step_inv\<close>)

lemma keys_inner_step: "K \<subseteq> fst ` set color \<Longrightarrow> K \<subseteq> fst ` set (inner_step full v cc u color)"
  by (auto simp: inner_step_cond AList.dom_update)

lemma keys_inner_loop:
  "K \<subseteq> fst ` set color \<Longrightarrow> K \<subseteq> fst ` set (fold (inner_step full v cc) us color)"
  by (rule fold_invariant) (simp_all add: keys_inner_step)

lemma keys_outer_step:
  "insert v (fst ` set (fst st)) \<subseteq> fst ` set (fst (outer_step full order v st))"
proof (cases st)
  case (Pair color cc)
  show ?thesis
  proof (cases "has_key v color")
    case True
    then show ?thesis by (simp add: Pair outer_step_def has_key_def)
  next
    case False
    have "insert v (fst ` set color) \<subseteq> fst ` set (AList.update v cc color)"
      by (simp add: AList.dom_update)
    then have "insert v (fst ` set color)
        \<subseteq> fst ` set (fold (inner_step full v cc) order (AList.update v cc color))"
      by (rule keys_inner_loop)
    then show ?thesis using False by (simp add: Pair outer_step_def)
  qed
qed

lemma keys_outer_loop:
  "set vs \<union> fst ` set (fst st) \<subseteq> fst ` set (fst (fold (outer_step full order) vs st))"
proof (induction vs arbitrary: st)
  case Nil
  then show ?case by simp
next
  case (Cons v vs)
  have "insert v (fst ` set (fst st)) \<subseteq> fst ` set (fst (outer_step full order v st))"
    by (rule keys_outer_step)
  also have "\<dots> \<subseteq> fst ` set (fst (fold (outer_step full order) vs (outer_step full order v st)))"
    using Cons.IH [of "outer_step full order v st"] by blast
  finally have a: "insert v (fst ` set (fst st))
      \<subseteq> fst ` set (fst (fold (outer_step full order) (v # vs) st))" by simp
  have b: "set vs \<subseteq> fst ` set (fst (fold (outer_step full order) (v # vs) st))"
    using Cons.IH [of "outer_step full order v st"] by simp
  show ?case using a b by auto
qed

lemma outer_inv_init: "outer_inv adj ([], 1)"
  by (simp add: outer_inv_def pp_def)

lemma outer_step_inv:
  assumes v: "v \<in> set (vertices_of adj)" and order: "set order \<subseteq> set (vertices_of adj)"
    and inv: "outer_inv adj st"
  shows "outer_inv adj (outer_step (full_of adj) order v st)"
proof (cases st)
  case (Pair color cc)
  show ?thesis
  proof (cases "has_key v color")
    case True
    then show ?thesis using inv by (simp add: Pair outer_step_def)
  next
    case False
    let ?m = "map_of color"
    let ?c1 = "AList.update v cc color"
    let ?c2 = "fold (inner_step (full_of adj) v cc) order ?c1"
    have res: "outer_step (full_of adj) order v st = (?c2, cc + 1)"
      using False by (simp add: Pair outer_step_def)
    have I: "distinct (map fst color)" "fst ` set color \<subseteq> set (vertices_of adj)"
      "pp adj ?m" "\<forall>a c. ?m a = Some c \<longrightarrow> 1 \<le> c \<and> c < cc"
      "\<forall>c. 1 \<le> c \<and> c < cc \<longrightarrow> (\<exists>a. ?m a = Some c)" "1 \<le> cc"
      using inv by (auto simp: Pair outer_inv_def)
    have m1: "map_of ?c1 = ?m(v \<mapsto> cc)" by (simp add: AList.update_conv')
    have fresh: "\<forall>a. ?m a \<noteq> Some cc" using I(4) by force
    have vn: "?m v = None" using False by (simp add: has_key_map_of)
    have "inner_inv adj cc (?m(v \<mapsto> cc)) ?c1"
      unfolding inner_inv_def using I(1,2) v pp_fresh [OF I(3) fresh, of v]
      by (auto simp: m1 AList.distinct_update AList.dom_update)
    then have J: "inner_inv adj cc (?m(v \<mapsto> cc)) ?c2"
      by (rule inner_loop_inv [OF order])
    let ?m2 = "map_of ?c2"
    have le: "?m(v \<mapsto> cc) \<subseteq>\<^sub>m ?m2" using J by (simp add: inner_inv_def)
    have ext: "?m a = Some c \<Longrightarrow> ?m2 a = Some c" for a c
      using le vn unfolding map_le_def by (metis domI fun_upd_apply option.distinct(1))
    have v2: "?m2 v = Some cc"
      using le unfolding map_le_def by (metis domI fun_upd_same)
    have range: "\<forall>a c. ?m2 a = Some c \<longrightarrow> 1 \<le> c \<and> c < cc + 1"
    proof (intro allI impI)
      fix a c assume "?m2 a = Some c"
      then have "(?m(v \<mapsto> cc)) a = Some c \<or> c = cc" using J by (simp add: inner_inv_def)
      then show "1 \<le> c \<and> c < cc + 1" using I(4,6) by (fastforce split: if_splits)
    qed
    have contig: "\<forall>c. 1 \<le> c \<and> c < cc + 1 \<longrightarrow> (\<exists>a. ?m2 a = Some c)"
    proof (intro allI impI)
      fix c assume c: "1 \<le> c \<and> c < cc + 1"
      show "\<exists>a. ?m2 a = Some c"
      proof (cases "c = cc")
        case True
        then show ?thesis using v2 by blast
      next
        case False
        then obtain a where "?m a = Some c" using c I(5) by force
        then show ?thesis using ext by blast
      qed
    qed
    show ?thesis
      unfolding res outer_inv_def using J range contig I(6)
      by (simp add: inner_inv_def)
  qed
qed

lemma outer_loop_inv:
  assumes "set vs \<subseteq> set (vertices_of adj)" and "set order \<subseteq> set (vertices_of adj)"
    and "outer_inv adj st"
  shows "outer_inv adj (fold (outer_step (full_of adj) order) vs st)"
  using assms(3)
  by (rule fold_invariant) (use assms(1,2) in \<open>auto intro: outer_step_inv\<close>)

lemma welsh_powell_final: "welsh_powell adj = fst (final_state adj)"
  by (simp add: welsh_powell_def final_state_def Let_def)

lemma final_state_inv: "outer_inv adj (final_state adj)"
  unfolding final_state_def
  by (rule outer_loop_inv) (simp_all add: set_order_full_of outer_inv_init)

lemma keys_welsh_powell: "fst ` set (welsh_powell adj) = set (vertices_of adj)"
proof
  show "fst ` set (welsh_powell adj) \<subseteq> set (vertices_of adj)"
    using final_state_inv [of adj]
    by (cases "final_state adj") (simp add: welsh_powell_final outer_inv_def)
  show "set (vertices_of adj) \<subseteq> fst ` set (welsh_powell adj)"
    using keys_outer_loop [of "order_of (full_of adj)" "([], 1)" "full_of adj" "order_of (full_of adj)"]
    by (simp add: welsh_powell_final final_state_def set_order_full_of)
qed

lemma distinct_welsh_powell: "distinct (map fst (welsh_powell adj))"
  using final_state_inv [of adj]
  by (cases "final_state adj") (simp add: welsh_powell_final outer_inv_def)

lemma pp_welsh_powell: "pp adj (map_of (welsh_powell adj))"
  using final_state_inv [of adj]
  by (cases "final_state adj") (simp add: welsh_powell_final outer_inv_def)

lemma colors_welsh_powell:
  "snd ` set (welsh_powell adj) = {1 ..< snd (final_state adj)}"
proof -
  obtain color cc where st: "final_state adj = (color, cc)" by (cases "final_state adj")
  have I: "distinct (map fst color)"
      "\<forall>a c. map_of color a = Some c \<longrightarrow> 1 \<le> c \<and> c < cc"
      "\<forall>c. 1 \<le> c \<and> c < cc \<longrightarrow> (\<exists>a. map_of color a = Some c)"
    using final_state_inv [of adj] by (auto simp: st outer_inv_def)
  have "snd ` set color = {1 ..< cc}"
  proof (intro set_eqI iffI)
    fix c assume "c \<in> snd ` set color"
    then obtain a where "(a, c) \<in> set color" by force
    then have "map_of color a = Some c" using I(1) by simp
    then show "c \<in> {1 ..< cc}" using I(2) by simp
  next
    fix c assume "c \<in> {1 ..< cc}"
    then obtain a where "map_of color a = Some c" using I(3) by force
    then have "(a, c) \<in> set color" by (rule map_of_SomeD)
    then show "c \<in> snd ` set color" by force
  qed
  then show ?thesis by (simp add: welsh_powell_final st)
qed

lemma map_of_welsh_powell_Some:
  "v \<in> set (vertices_of adj) \<Longrightarrow> \<exists>c. map_of (welsh_powell adj) v = Some c"
  using keys_welsh_powell [of adj] by (metis map_of_eq_None_iff not_None_eq)

lemma welsh_powell_differs:
  assumes "(a, b) \<in> edges_of adj \<or> (b, a) \<in> edges_of adj" and "a \<noteq> b"
  shows "\<exists>ca cb. map_of (welsh_powell adj) a = Some ca
           \<and> map_of (welsh_powell adj) b = Some cb \<and> ca \<noteq> cb"
proof -
  have va: "a \<in> set (vertices_of adj)" and vb: "b \<in> set (vertices_of adj)"
    using assms(1) edge_endpoints by blast+
  obtain ca cb where c: "map_of (welsh_powell adj) a = Some ca"
      "map_of (welsh_powell adj) b = Some cb"
    using va vb map_of_welsh_powell_Some by blast
  have "b \<in> sym_nbrs adj a" using assms(1) by (simp add: sym_nbrs_iff)
  then have "ca \<noteq> cb"
    using pp_welsh_powell [of adj] assms(2) c unfolding pp_def by blast
  then show ?thesis using c by blast
qed

lemma count_list_distinct: "distinct xs \<Longrightarrow> x \<in> set xs \<Longrightarrow> count_list xs x = 1"
  by (induction xs) (auto simp: count_list_0_iff)

section \<open>First fit along the processing order\<close>

text \<open>
  The outer loop seeds a class with the first vertex of the order that has no colour, and the
  inner loop scans the same list from its start. A vertex left out of a class therefore has
  a neighbour of that class before it in the list, and the colour a vertex ends with is the
  least positive colour that no earlier neighbour carries.
\<close>

lemma fold_prefix_invariant:
  assumes "P [] s"
    and "\<And>pre x post s. xs = pre @ x # post \<Longrightarrow> P pre s \<Longrightarrow> P (pre @ [x]) (f x s)"
  shows "P xs (fold f xs s)"
proof -
  have "P pre s \<Longrightarrow> xs = pre @ rest \<Longrightarrow> P (pre @ rest) (fold f rest s)" for pre rest s
  proof (induction rest arbitrary: pre s)
    case Nil
    then show ?case by simp
  next
    case (Cons x rest)
    have "P (pre @ [x]) (f x s)" using Cons.prems assms(2) by blast
    then have "P ((pre @ [x]) @ rest) (fold f rest (f x s))"
      using Cons.prems by (intro Cons.IH) simp_all
    then show ?case by simp
  qed
  from this [of "[]" s xs] assms(1) show ?thesis by simp
qed

lemma precedes_prefix: "w \<in> set pre \<Longrightarrow> precedes (pre @ x # post) w x"
proof -
  assume "w \<in> set pre"
  then obtain i where i: "i < length pre" "pre ! i = w" by (auto simp: in_set_conv_nth)
  have "(pre @ x # post) ! i = w" using i by (simp add: nth_append)
  moreover have "(pre @ x # post) ! length pre = x" by simp
  ultimately show ?thesis unfolding precedes_def using i(1)
    by (intro exI [of _ i] exI [of _ "length pre"]) simp
qed

lemma precedes_suffix: "u \<in> set post \<Longrightarrow> precedes (pre @ v # post) v u"
proof -
  assume "u \<in> set post"
  then obtain k where k: "k < length post" "post ! k = u" by (auto simp: in_set_conv_nth)
  have "(pre @ v # post) ! (length pre + Suc k) = u" using k by (simp add: nth_append)
  moreover have "(pre @ v # post) ! length pre = v" by simp
  ultimately show ?thesis unfolding precedes_def using k(1)
    by (intro exI [of _ "length pre"] exI [of _ "length pre + Suc k"]) simp
qed

lemma blocked_mono: "m \<subseteq>\<^sub>m m' \<Longrightarrow> blocked adj os m u c \<Longrightarrow> blocked adj os m' u c"
  unfolding blocked_def map_le_def by (metis domI)

lemma scan_step:
  assumes os: "os = pre @ x # post" "set os \<subseteq> set (vertices_of adj)"
    and seed: "m0 v = Some cc"
    and H: "\<forall>u \<in> set os. m0 u = None \<longrightarrow> precedes os v u"
    and inv: "scan_inv adj os v cc m0 pre color"
  shows "scan_inv adj os v cc m0 (pre @ [x]) (inner_step (full_of adj) v cc x color)"
proof -
  let ?m = "map_of color"
  have xV: "x \<in> set (vertices_of adj)" using os by auto
  have I: "inner_inv adj cc m0 color"
    and B: "\<forall>w. ?m w = Some cc \<longrightarrow> w = v \<or> w \<in> set pre"
    and C: "\<forall>u \<in> set pre. ?m u = None \<longrightarrow> blocked adj os ?m u cc"
    using inv by (simp_all add: scan_inv_def)
  have le: "m0 \<subseteq>\<^sub>m ?m" using I by (simp add: inner_inv_def)
  have I': "inner_inv adj cc m0 (inner_step (full_of adj) v cc x color)"
    using xV I by (rule inner_step_inv)
  show ?thesis
  proof (cases "inner_cond (full_of adj) v cc x color")
    case True
    let ?m' = "?m(x \<mapsto> cc)"
    have m': "map_of (inner_step (full_of adj) v cc x color) = ?m'"
      using True by (simp add: map_of_inner_step)
    have xn: "?m x = None" using True by (simp add: inner_cond_def)
    then have mm: "?m \<subseteq>\<^sub>m ?m'" by (auto simp: map_le_def)
    have "\<forall>w. ?m' w = Some cc \<longrightarrow> w = v \<or> w \<in> set (pre @ [x])"
      using B by auto
    moreover have "\<forall>u \<in> set (pre @ [x]). ?m' u = None \<longrightarrow> blocked adj os ?m' u cc"
    proof (intro ballI impI)
      fix u assume u: "u \<in> set (pre @ [x])" and n: "?m' u = None"
      then have "u \<in> set pre" "?m u = None" by (auto split: if_splits)
      then have "blocked adj os ?m u cc" using C by blast
      then show "blocked adj os ?m' u cc" using mm by (rule blocked_mono [rotated])
    qed
    ultimately show ?thesis using I' unfolding scan_inv_def m' by blast
  next
    case False
    have same: "inner_step (full_of adj) v cc x color = color"
      using False by (simp add: inner_step_cond)
    have "blocked adj os ?m u cc" if u: "u \<in> set (pre @ [x])" and n: "?m u = None" for u
    proof (cases "u = x")
      case False
      then show ?thesis using u n C by auto
    next
      case True
      have vx: "v \<noteq> x"
        using le seed n True unfolding map_le_def by (metis domI option.distinct(1))
      then obtain nbr where nbr: "nbr \<in> set (lookup (full_of adj) x)" "?m nbr = Some cc"
        using \<open>\<not> inner_cond (full_of adj) v cc x color\<close> n True
        by (auto simp: inner_cond_def)
      have nN: "nbr \<in> sym_nbrs adj x" using nbr(1) xV by (simp add: lookup_full_of)
      have "precedes os nbr x"
      proof (cases "nbr \<in> set pre")
        case True
        then show ?thesis unfolding os(1) by (rule precedes_prefix)
      next
        case False
        then have "nbr = v" using B nbr(2) by blast
        moreover have "m0 x = None"
          using le n True unfolding map_le_def by (metis domIff)
        moreover have "x \<in> set os" using os(1) by simp
        ultimately show ?thesis using H by blast
      qed
      then show ?thesis using nN nbr(2) True unfolding blocked_def by blast
    qed
    then show ?thesis using I B unfolding scan_inv_def same by auto
  qed
qed

lemma scan_loop:
  assumes os: "set os \<subseteq> set (vertices_of adj)"
    and seed: "m0 v = Some cc"
    and H: "\<forall>u \<in> set os. m0 u = None \<longrightarrow> precedes os v u"
    and inv: "inner_inv adj cc m0 color"
    and only: "\<forall>w. map_of color w = Some cc \<longrightarrow> w = v"
  shows "scan_inv adj os v cc m0 os (fold (inner_step (full_of adj) v cc) os color)"
proof (rule fold_prefix_invariant [where P = "scan_inv adj os v cc m0" and xs = os])
  show "scan_inv adj os v cc m0 [] color"
    using inv only by (simp add: scan_inv_def)
next
  fix pre x post s
  assume "os = pre @ x # post" and "scan_inv adj os v cc m0 pre s"
  then show "scan_inv adj os v cc m0 (pre @ [x]) (inner_step (full_of adj) v cc x s)"
    using os seed H by (intro scan_step) simp_all
qed

lemma first_fit_step:
  assumes os: "os = pre @ v # post" "set os = set (vertices_of adj)"
    and inv: "first_fit_inv adj os pre st"
  shows "first_fit_inv adj os (pre @ [v]) (outer_step (full_of adj) os v st)"
proof (cases st)
  case (Pair color cc)
  let ?m = "map_of color"
  have O: "outer_inv adj (color, cc)"
    and P: "set pre \<subseteq> fst ` set color"
    and J1: "\<forall>u c. ?m u = Some c \<longrightarrow> (\<forall>c'. 1 \<le> c' \<and> c' < c \<longrightarrow> blocked adj os ?m u c')"
    and J2: "\<forall>u \<in> set os. ?m u = None \<longrightarrow> (\<forall>c'. 1 \<le> c' \<and> c' < cc \<longrightarrow> blocked adj os ?m u c')"
    using inv by (simp_all add: Pair first_fit_inv_def)
  have vV: "v \<in> set (vertices_of adj)" and osV: "set os \<subseteq> set (vertices_of adj)"
    using os by auto
  show ?thesis
  proof (cases "has_key v color")
    case True
    then have "outer_step (full_of adj) os v st = (color, cc)"
      by (simp add: Pair outer_step_def)
    moreover have "set (pre @ [v]) \<subseteq> fst ` set color"
      using P True by (simp add: has_key_def)
    ultimately show ?thesis using O J1 J2 by (simp add: first_fit_inv_def)
  next
    case False
    let ?c1 = "AList.update v cc color"
    let ?m1 = "?m(v \<mapsto> cc)"
    let ?c2 = "fold (inner_step (full_of adj) v cc) os ?c1"
    let ?m2 = "map_of ?c2"
    have res: "outer_step (full_of adj) os v (color, cc) = (?c2, cc + 1)"
      using False by (simp add: outer_step_def)
    have O2: "outer_inv adj (?c2, cc + 1)"
      using outer_step_inv [OF vV osV O] by (simp add: res)
    have I: "distinct (map fst color)" "fst ` set color \<subseteq> set (vertices_of adj)"
      "pp adj ?m" "\<forall>a c. ?m a = Some c \<longrightarrow> 1 \<le> c \<and> c < cc"
      using O by (auto simp: outer_inv_def)
    have m1: "map_of ?c1 = ?m1" by (simp add: AList.update_conv')
    have fresh: "\<forall>a. ?m a \<noteq> Some cc" using I(4) by force
    have vn: "?m v = None" using False by (simp add: has_key_map_of)
    have mm1: "?m \<subseteq>\<^sub>m ?m1" using vn by (auto simp: map_le_def)
    have inner0: "inner_inv adj cc ?m1 ?c1"
      unfolding inner_inv_def using I(1,2) vV pp_fresh [OF I(3) fresh, of v]
      by (auto simp: m1 AList.distinct_update AList.dom_update)
    have only: "\<forall>w. map_of ?c1 w = Some cc \<longrightarrow> w = v"
      using fresh by (simp add: m1)
    have H: "\<forall>u \<in> set os. ?m1 u = None \<longrightarrow> precedes os v u"
    proof (intro ballI impI)
      fix u assume u: "u \<in> set os" and n: "?m1 u = None"
      then have "u \<noteq> v" "?m u = None" by (auto split: if_splits)
      then have "u \<notin> set pre" using P by (auto simp: map_of_eq_None_iff)
      then have "u \<in> set post" using u \<open>u \<noteq> v\<close> by (simp add: os(1))
      then show "precedes os v u" unfolding os(1) by (rule precedes_suffix)
    qed
    have S: "scan_inv adj os v cc ?m1 os ?c2"
      using osV _ H inner0 only by (rule scan_loop) simp
    then have J: "inner_inv adj cc ?m1 ?c2"
      and C: "\<forall>u \<in> set os. ?m2 u = None \<longrightarrow> blocked adj os ?m2 u cc"
      by (simp_all add: scan_inv_def)
    have m12: "?m1 \<subseteq>\<^sub>m ?m2" using J by (simp add: inner_inv_def)
    have mm2: "?m \<subseteq>\<^sub>m ?m2" using mm1 m12 by (rule map_le_trans)
    have new: "\<forall>a c. ?m2 a = Some c \<longrightarrow> ?m1 a = Some c \<or> c = cc"
      using J by (simp add: inner_inv_def)
    have keys2: "fst ` set ?c2 \<subseteq> set os"
      using J by (simp add: inner_inv_def os(2))
    have dom2: "set (pre @ [v]) \<subseteq> fst ` set ?c2"
    proof
      fix u assume "u \<in> set (pre @ [v])"
      then consider "u = v" | "u \<in> set pre" by auto
      then have "?m1 u \<noteq> None"
      proof cases
        case 1
        then show ?thesis by simp
      next
        case 2
        then have "u \<in> fst ` set color" using P by blast
        then have "?m u \<noteq> None" by (simp add: map_of_eq_None_iff)
        then show ?thesis by simp
      qed
      then have "?m2 u \<noteq> None" using m12 unfolding map_le_def by (metis domIff)
      then show "u \<in> fst ` set ?c2" by (simp add: map_of_eq_None_iff)
    qed
    have start: "blocked adj os ?m2 u c'"
      if "u \<in> set os" "?m u = None" "1 \<le> c' \<and> c' < cc" for u c'
      using J2 that mm2 blocked_mono by blast
    have K1: "blocked adj os ?m2 u c'" if u: "?m2 u = Some c" and c': "1 \<le> c' \<and> c' < c" for u c c'
    proof (cases "?m u")
      case (Some d)
      then have "?m2 u = Some d" using mm2 unfolding map_le_def by (metis domI)
      then have "?m u = Some c" using u Some by simp
      then have "blocked adj os ?m u c'" using J1 c' by blast
      then show ?thesis using mm2 blocked_mono by blast
    next
      case None
      have "u \<in> set os" using keys2 u by (metis domI dom_map_of_conv_image_fst subsetD)
      moreover have "c = cc"
      proof (cases "u = v")
        case True
        then have "?m2 u = Some cc" using m12 unfolding map_le_def by (metis domI fun_upd_same)
        then show ?thesis using u by simp
      next
        case False
        then have "?m1 u = None" using None by simp
        then show ?thesis using new u by force
      qed
      ultimately show ?thesis using start None c' by blast
    qed
    have K2: "blocked adj os ?m2 u c'"
      if u: "u \<in> set os" "?m2 u = None" and c': "1 \<le> c' \<and> c' < cc + 1" for u c'
    proof (cases "c' = cc")
      case True
      then show ?thesis using C u by blast
    next
      case False
      have "?m u = None" using mm2 u(2) unfolding map_le_def by (metis domIff)
      then show ?thesis using start u(1) c' False by simp
    qed
    show ?thesis
      unfolding Pair res first_fit_inv_def using O2 dom2 K1 K2 by simp
  qed
qed

lemma first_fit_loop:
  assumes "set os = set (vertices_of adj)"
  shows "first_fit_inv adj os os (fold (outer_step (full_of adj) os) os ([], 1))"
proof (rule fold_prefix_invariant [where P = "first_fit_inv adj os" and xs = os])
  show "first_fit_inv adj os [] ([], 1)"
    by (auto simp: first_fit_inv_def outer_inv_init)
next
  fix pre x post s
  assume "os = pre @ x # post" and "first_fit_inv adj os pre s"
  then show "first_fit_inv adj os (pre @ [x]) (outer_step (full_of adj) os x s)"
    using assms by (intro first_fit_step) simp_all
qed

lemma first_fit_final:
  "first_fit_inv adj (order_of (full_of adj)) (order_of (full_of adj)) (final_state adj)"
  unfolding final_state_def by (rule first_fit_loop) (rule set_order_full_of)

lemma welsh_powell_first_fit:
  assumes j: "j < length (order_of (full_of adj))"
  shows "\<exists>c. map_of (welsh_powell adj) (order_of (full_of adj) ! j) = Some c \<and> 1 \<le> c
     \<and> (\<forall>i < j. order_of (full_of adj) ! i \<in> sym_nbrs adj (order_of (full_of adj) ! j) \<longrightarrow>
           map_of (welsh_powell adj) (order_of (full_of adj) ! i) \<noteq> Some c)
     \<and> (\<forall>c'. 1 \<le> c' \<and> c' < c \<longrightarrow>
           (\<exists>i < j. order_of (full_of adj) ! i \<in> sym_nbrs adj (order_of (full_of adj) ! j)
              \<and> map_of (welsh_powell adj) (order_of (full_of adj) ! i) = Some c'))"
proof -
  let ?os = "order_of (full_of adj)"
  let ?m = "map_of (welsh_powell adj)"
  obtain color cc where st: "final_state adj = (color, cc)" by (cases "final_state adj")
  have wp: "welsh_powell adj = color" by (simp add: welsh_powell_final st)
  have d: "distinct ?os" by (rule distinct_order_full_of)
  have uV: "?os ! j \<in> set (vertices_of adj)"
    using j set_order_full_of [of adj] nth_mem by blast
  then obtain c where c: "?m (?os ! j) = Some c" using map_of_welsh_powell_Some by blast
  have F: "\<forall>u c. ?m u = Some c \<longrightarrow> (\<forall>c'. 1 \<le> c' \<and> c' < c \<longrightarrow> blocked adj ?os ?m u c')"
    and R: "\<forall>a c. ?m a = Some c \<longrightarrow> 1 \<le> c \<and> c < cc"
    using first_fit_final [of adj] by (simp_all add: st wp first_fit_inv_def outer_inv_def)
  have "1 \<le> c" using R c by blast
  moreover have "?m (?os ! i) \<noteq> Some c" if "i < j" "?os ! i \<in> sym_nbrs adj (?os ! j)" for i
  proof -
    have "?os ! i \<noteq> ?os ! j" using d that(1) j by (simp add: nth_eq_iff_index_eq)
    then show ?thesis
      using pp_welsh_powell [of adj] that(2) c unfolding pp_def by metis
  qed
  moreover have "\<exists>i < j. ?os ! i \<in> sym_nbrs adj (?os ! j) \<and> ?m (?os ! i) = Some c'"
    if "1 \<le> c' \<and> c' < c" for c'
  proof -
    have "blocked adj ?os ?m (?os ! j) c'" using F c that by blast
    then obtain w where w: "precedes ?os w (?os ! j)" "w \<in> sym_nbrs adj (?os ! j)" "?m w = Some c'"
      unfolding blocked_def by blast
    then obtain i k where ik: "i < k" "k < length ?os" "?os ! i = w" "?os ! k = ?os ! j"
      unfolding precedes_def by blast
    then have "k = j" using d j by (simp add: nth_eq_iff_index_eq)
    then show ?thesis using ik w by blast
  qed
  ultimately show ?thesis using c by blast
qed

section \<open>Independence from the arrangement of dictionaries and sets\<close>

lemma inner_step_cong:
  "set (lookup full u) = set (lookup full' u) \<Longrightarrow>
   inner_step full v cc u color = inner_step full' v cc u color"
  by (simp add: inner_step_def)

lemma outer_step_cong:
  assumes "\<forall>u \<in> set order. set (lookup full u) = set (lookup full' u)"
  shows "outer_step full order v st = outer_step full' order v st"
proof -
  have "fold (inner_step full v cc) order c = fold (inner_step full' v cc) order c" for cc c
    using assms by (intro fold_cong) (auto intro: inner_step_cong)
  then show ?thesis by (simp add: outer_step_def split: prod.splits)
qed

lemma inj_order_key: "inj_on (order_key full) A"
  by (rule inj_onI) (simp add: order_key_def)

lemma wf_dict_lookup: "wf_dict d \<Longrightarrow> k \<in> fst ` set d \<Longrightarrow> distinct (lookup d k)"
  using key_map_of [of k d]
  by (auto simp: wf_dict_def lookup_def dest!: map_of_SomeD)

text \<open>
  Python iterates over the set \<open>vertices\<close>, and so over the keys of \<open>full\<close>, in an order that
  depends on string hashing. The sort key of line 22 ends in the identifier itself, so no two
  vertices have the same key and the sorted list is the same for every such order: any
  dictionary that holds the symmetrised graph, whatever the order of its items and of the
  elements of its sets, gives the processing order and the colouring of the model.
\<close>

lemma order_of_arrangement:
  assumes wf: "wf_dict full'"
    and keys: "fst ` set full' = set (vertices_of adj)"
    and sets: "\<forall>a \<in> set (vertices_of adj). set (lookup full' a) = sym_nbrs adj a"
  shows "order_of full' = order_of (full_of adj)"
proof -
  let ?f = "order_key full'" and ?g = "order_key (full_of adj)"
  let ?ys = "sort_key ?g (vertices_of adj)"
  have fg: "?f x = ?g x" if x: "x \<in> set (vertices_of adj)" for x
  proof -
    have "distinct (lookup full' x)" using wf keys x by (simp add: wf_dict_lookup)
    then have "length (lookup full' x) = card (set (lookup full' x))"
      by (simp add: distinct_card)
    then have "length (lookup full' x) = degree adj x"
      using sets x by (simp add: degree_def)
    then show ?thesis using x by (simp add: order_key_full_of) (simp add: order_key_def)
  qed
  have "distinct (map fst full')" using wf by (simp add: wf_dict_def)
  moreover have "set (map fst full') = set (vertices_of adj)" using keys by simp
  ultimately have "mset (map fst full') = mset (vertices_of adj)"
    using distinct_vertices_of [of adj] set_eq_iff_mset_eq_distinct by blast
  then have m: "mset (map fst full') = mset ?ys" by simp
  have eq: "map ?f ?ys = map ?g ?ys"
    using fg by simp
  have s: "sorted (map ?f ?ys)"
    unfolding eq by (rule sorted_sort_key)
  have "sort_key ?f (map fst full') = ?ys"
    using m inj_order_key s by (rule sort_key_inj_key_eq)
  then show ?thesis by (simp add: order_of_def map_fst_full_of)
qed

lemma welsh_powell_arrangement:
  assumes wf: "wf_dict full'"
    and keys: "fst ` set full' = set (vertices_of adj)"
    and sets: "\<forall>a \<in> set (vertices_of adj). set (lookup full' a) = sym_nbrs adj a"
  shows "fst (fold (outer_step full' (order_of full')) (order_of full') ([], 1))
           = welsh_powell adj"
proof -
  let ?order = "order_of (full_of adj)"
  have o: "order_of full' = ?order"
    using assms by (rule order_of_arrangement)
  have "\<forall>u \<in> set ?order. set (lookup full' u) = set (lookup (full_of adj) u)"
    using sets by (simp add: set_order_full_of lookup_full_of)
  then have "outer_step full' ?order v = outer_step (full_of adj) ?order v" for v
    by (intro ext outer_step_cong)
  then have "fold (outer_step full' ?order) ?order ([], 1)
      = fold (outer_step (full_of adj) ?order) ?order ([], 1)"
    by (intro fold_cong) simp_all
  then show ?thesis by (simp add: welsh_powell_def Let_def o)
qed

section \<open>Rows of the schedule\<close>

lemma schedule_fields:
  "map (\<lambda>r. (Exam r, Slot r)) (schedule_from_coloring coloring h d)
     = sort_key (\<lambda>x. (snd x, fst x)) coloring"
  by (simp add: schedule_from_coloring_def comp_def case_prod_beta Let_def)

lemma schedule_row:
  assumes "r \<in> set (schedule_from_coloring coloring h d)"
  shows "(Exam r, Slot r) \<in> set coloring \<and> start r = h + (Slot r - 1) * d \<and> duration r = d"
  using assms by (auto simp: schedule_from_coloring_def Let_def)

lemma length_schedule: "length (schedule_from_coloring coloring h d) = length coloring"
  by (simp add: schedule_from_coloring_def)

section \<open>Properties of the colouring engine\<close>

text \<open>
  Claim C1. For a conflict graph whose listed pairs are symmetric and irreflexive, the
  colouring returned by \<open>welsh_powell\<close> is proper: both ends of every edge are coloured and
  their colours differ. The graph may have isolated vertices, several components and
  complete subgraphs; the witness has all three.
\<close>

theorem welsh_powell_proper:
  assumes "sym (edges_of adj)" and "irrefl (edges_of adj)" and "(a, b) \<in> edges_of adj"
  shows "\<exists>ca cb. map_of (welsh_powell adj) a = Some ca
           \<and> map_of (welsh_powell adj) b = Some cb \<and> ca \<noteq> cb"
proof -
  have "a \<noteq> b" using assms(2,3) by (auto simp: irrefl_def)
  then show ?thesis using assms(3) by (intro welsh_powell_differs) simp_all
qed

theorem welsh_powell_proper_witness:
  "\<exists>ca cb.
     map_of (welsh_powell [(''A'', [''B'', ''C'']), (''B'', [''A'', ''C'']),
        (''C'', [''A'', ''B'']), (''D'', []), (''E'', [''F'']), (''F'', [''E''])]) ''B'' = Some ca
     \<and> map_of (welsh_powell [(''A'', [''B'', ''C'']), (''B'', [''A'', ''C'']),
        (''C'', [''A'', ''B'']), (''D'', []), (''E'', [''F'']), (''F'', [''E''])]) ''C'' = Some cb
     \<and> ca \<noteq> cb"
proof -
  let ?adj = "[(''A'', [''B'', ''C'']), (''B'', [''A'', ''C'']), (''C'', [''A'', ''B'']),
    (''D'', []), (''E'', [''F'']), (''F'', [''E''])]"
  have e: "edges_of ?adj = {(''A'', ''B''), (''A'', ''C''), (''B'', ''A''), (''B'', ''C''),
      (''C'', ''A''), (''C'', ''B''), (''E'', ''F''), (''F'', ''E'')}"
    by (simp add: edges_of_def)
  have "sym (edges_of ?adj)" unfolding e by (auto simp: sym_def)
  moreover have "irrefl (edges_of ?adj)" unfolding e by (auto simp: irrefl_def)
  moreover have "(''B'', ''C'') \<in> edges_of ?adj" unfolding e by simp
  ultimately show ?thesis by (rule welsh_powell_proper)
qed

text \<open>
  Claim C4. Every vertex of the graph, whether it is a key of the adjacency or occurs only in
  some neighbour collection, is a key of the returned dictionary exactly once, with a colour.
\<close>

theorem welsh_powell_total:
  assumes "v \<in> fst ` set adj \<or> (\<exists>(k, neigh) \<in> set adj. v \<in> set neigh)"
  shows "count_list (map fst (welsh_powell adj)) v = 1
    \<and> (\<exists>c. map_of (welsh_powell adj) v = Some c)"
proof -
  have "v \<in> set (vertices_of adj)"
    using assms
  proof
    assume "v \<in> fst ` set adj"
    then show ?thesis by (simp add: set_vertices_of)
  next
    assume "\<exists>(k, neigh) \<in> set adj. v \<in> set neigh"
    then obtain k where "(k, v) \<in> edges_of adj" by (auto simp: edges_of_iff)
    then show ?thesis using edge_endpoints by blast
  qed
  then show ?thesis
    using distinct_welsh_powell [of adj] keys_welsh_powell [of adj]
      map_of_welsh_powell_Some [of v adj]
    by (simp add: count_list_distinct)
qed

theorem welsh_powell_total_witness:
  "count_list (map fst (welsh_powell [(''A'', [''B'']), (''C'', [''A''])])) ''B'' = 1
   \<and> (\<exists>c. map_of (welsh_powell [(''A'', [''B'']), (''C'', [''A''])]) ''B'' = Some c)"
  using welsh_powell_total [of "''B''" "[(''A'', [''B'']), (''C'', [''A''])]"] by simp

text \<open>
  Claim C5. The colours in use are exactly the integers from 1 to some \<open>k\<close> with \<open>0 \<le> k\<close>:
  all are positive and none is skipped.
\<close>

theorem welsh_powell_colors_contiguous:
  "\<exists>k. 0 \<le> k \<and> snd ` set (welsh_powell adj) = {1 .. k}"
proof -
  obtain color cc where st: "final_state adj = (color, cc)" by (cases "final_state adj")
  have "1 \<le> cc" using final_state_inv [of adj] by (simp add: st outer_inv_def)
  moreover have "snd ` set (welsh_powell adj) = {1 .. cc - 1}"
    using colors_welsh_powell [of adj] by (auto simp: st)
  ultimately show ?thesis by (intro exI [of _ "cc - 1"]) simp
qed

theorem welsh_powell_colors_contiguous_witness:
  "welsh_powell [(''A'', [''B'', ''C'']), (''B'', [''A'', ''C'']), (''C'', [''A'', ''B''])]
     = [(''A'', 1), (''B'', 2), (''C'', 3)]
   \<and> (\<exists>k. 0 \<le> k \<and> snd ` set (welsh_powell
         [(''A'', [''B'', ''C'']), (''B'', [''A'', ''C'']), (''C'', [''A'', ''B''])]) = {1 .. k})"
proof -
  have "welsh_powell [(''A'', [''B'', ''C'']), (''B'', [''A'', ''C'']), (''C'', [''A'', ''B''])]
     = [(''A'', 1), (''B'', 2), (''C'', 3)]"
    by code_simp
  then show ?thesis
    using welsh_powell_colors_contiguous
      [of "[(''A'', [''B'', ''C'']), (''B'', [''A'', ''C'']), (''C'', [''A'', ''B''])]"]
    by blast
qed

text \<open>
  Claim C6. The processing order is computed from the argument alone, before any vertex is
  coloured: it holds every vertex once, and an earlier vertex has a larger degree in the
  symmetrised graph than a later one, or the same degree and a smaller identifier in the
  lexicographic order. The whole run follows this one list: each vertex ends with the least
  positive colour that none of its neighbours standing before it in the list carries, for
  every colour class alike, which is the colouring of a scan in this order and in no other
  in general.
\<close>

theorem welsh_powell_order:
  "distinct (order_of (full_of adj))
   \<and> set (order_of (full_of adj)) = fst ` set adj \<union> snd ` edges_of adj
   \<and> (\<forall>i j. i < j \<and> j < length (order_of (full_of adj)) \<longrightarrow>
        degree adj (order_of (full_of adj) ! j) < degree adj (order_of (full_of adj) ! i)
        \<or> (degree adj (order_of (full_of adj) ! i) = degree adj (order_of (full_of adj) ! j)
            \<and> order_of (full_of adj) ! i < order_of (full_of adj) ! j))
   \<and> (\<forall>j < length (order_of (full_of adj)).
        \<exists>c. map_of (welsh_powell adj) (order_of (full_of adj) ! j) = Some c \<and> 1 \<le> c
          \<and> (\<forall>i < j. order_of (full_of adj) ! i \<in> sym_nbrs adj (order_of (full_of adj) ! j) \<longrightarrow>
                map_of (welsh_powell adj) (order_of (full_of adj) ! i) \<noteq> Some c)
          \<and> (\<forall>c'. 1 \<le> c' \<and> c' < c \<longrightarrow>
                (\<exists>i < j. order_of (full_of adj) ! i \<in> sym_nbrs adj (order_of (full_of adj) ! j)
                   \<and> map_of (welsh_powell adj) (order_of (full_of adj) ! i) = Some c')))"
proof -
  let ?order = "order_of (full_of adj)"
  have d: "distinct ?order" by (rule distinct_order_full_of)
  have s: "set ?order = fst ` set adj \<union> snd ` edges_of adj"
    by (simp add: set_order_full_of set_vertices_of)
  have o: "degree adj (?order ! j) < degree adj (?order ! i)
        \<or> (degree adj (?order ! i) = degree adj (?order ! j) \<and> ?order ! i < ?order ! j)"
    if ij: "i < j \<and> j < length ?order" for i j
  proof -
    have vi: "?order ! i \<in> set (vertices_of adj)" and vj: "?order ! j \<in> set (vertices_of adj)"
      using ij set_order_full_of [of adj] nth_mem [of i ?order] nth_mem [of j ?order] by auto
    have "map (order_key (full_of adj)) ?order ! i \<le> map (order_key (full_of adj)) ?order ! j"
      using sorted_order_of [of "full_of adj"] ij
      by (intro sorted_nth_mono) simp_all
    then have le: "(- int (degree adj (?order ! i)), ?order ! i)
        \<le> (- int (degree adj (?order ! j)), ?order ! j)"
      using ij vi vj by (simp add: order_key_full_of)
    have "?order ! i \<noteq> ?order ! j"
      using d ij by (simp add: nth_eq_iff_index_eq)
    then show ?thesis using le by auto
  qed
  show ?thesis using d s o welsh_powell_first_fit [of _ adj] by blast
qed

theorem welsh_powell_order_witness:
  "order_of (full_of [(''A'', [''B'']), (''C'', [''A''])]) = [''A'', ''B'', ''C'']
   \<and> (degree [(''A'', [''B'']), (''C'', [''A''])] ''C'' < degree [(''A'', [''B'']), (''C'', [''A''])] ''B''
      \<or> (degree [(''A'', [''B'']), (''C'', [''A''])] ''B'' = degree [(''A'', [''B'']), (''C'', [''A''])] ''C''
          \<and> ''B'' < ''C''))
   \<and> (\<exists>c. map_of (welsh_powell [(''A'', [''B'']), (''C'', [''A''])]) ''C'' = Some c \<and> 1 \<le> c
         \<and> map_of (welsh_powell [(''A'', [''B'']), (''C'', [''A''])]) ''A'' \<noteq> Some c
         \<and> (1 < c \<longrightarrow> map_of (welsh_powell [(''A'', [''B'']), (''C'', [''A''])]) ''A'' = Some 1
               \<or> map_of (welsh_powell [(''A'', [''B'']), (''C'', [''A''])]) ''B'' = Some 1))"
proof -
  let ?adj = "[(''A'', [''B'']), (''C'', [''A''])]"
  let ?order = "order_of (full_of ?adj)"
  have v: "?order = [''A'', ''B'', ''C'']" by code_simp
  have e: "edges_of ?adj = {(''A'', ''B''), (''C'', ''A'')}" by (simp add: edges_of_def)
  have srt: "\<forall>i j. i < j \<and> j < length ?order \<longrightarrow>
        degree ?adj (?order ! j) < degree ?adj (?order ! i)
        \<or> (degree ?adj (?order ! i) = degree ?adj (?order ! j) \<and> ?order ! i < ?order ! j)"
    and ff: "\<forall>j < length ?order.
        \<exists>c. map_of (welsh_powell ?adj) (?order ! j) = Some c \<and> 1 \<le> c
          \<and> (\<forall>i < j. ?order ! i \<in> sym_nbrs ?adj (?order ! j) \<longrightarrow>
                map_of (welsh_powell ?adj) (?order ! i) \<noteq> Some c)
          \<and> (\<forall>c'. 1 \<le> c' \<and> c' < c \<longrightarrow>
                (\<exists>i < j. ?order ! i \<in> sym_nbrs ?adj (?order ! j)
                   \<and> map_of (welsh_powell ?adj) (?order ! i) = Some c'))"
    using welsh_powell_order [of ?adj] by blast+
  have "1 < (2::nat) \<and> 2 < length ?order \<longrightarrow>
        degree ?adj (?order ! 2) < degree ?adj (?order ! 1)
        \<or> (degree ?adj (?order ! 1) = degree ?adj (?order ! 2) \<and> ?order ! 1 < ?order ! 2)"
    using srt by blast
  then have s12: "degree ?adj ''C'' < degree ?adj ''B''
      \<or> (degree ?adj ''B'' = degree ?adj ''C'' \<and> ''B'' < ''C'')"
    unfolding v by simp
  have "2 < length ?order" unfolding v by simp
  then obtain c where c: "map_of (welsh_powell ?adj) (?order ! 2) = Some c" "1 \<le> c"
      "\<forall>i < 2. ?order ! i \<in> sym_nbrs ?adj (?order ! 2) \<longrightarrow>
          map_of (welsh_powell ?adj) (?order ! i) \<noteq> Some c"
      "\<forall>c'. 1 \<le> c' \<and> c' < c \<longrightarrow>
          (\<exists>i < 2. ?order ! i \<in> sym_nbrs ?adj (?order ! 2)
             \<and> map_of (welsh_powell ?adj) (?order ! i) = Some c')"
    using ff by blast
  have cC: "map_of (welsh_powell ?adj) ''C'' = Some c" using c(1) unfolding v by simp
  have "''A'' \<in> sym_nbrs ?adj ''C''" by (simp add: sym_nbrs_iff e)
  then have "?order ! 0 \<in> sym_nbrs ?adj (?order ! 2)" unfolding v by simp
  then have "map_of (welsh_powell ?adj) (?order ! 0) \<noteq> Some c" using c(3) by simp
  then have cA: "map_of (welsh_powell ?adj) ''A'' \<noteq> Some c" unfolding v by simp
  have c1: "map_of (welsh_powell ?adj) ''A'' = Some 1 \<or> map_of (welsh_powell ?adj) ''B'' = Some 1"
    if lt: "1 < c"
  proof -
    have "\<exists>i < 2. ?order ! i \<in> sym_nbrs ?adj (?order ! 2)
        \<and> map_of (welsh_powell ?adj) (?order ! i) = Some 1"
      using c(4) lt by simp
    then obtain i where i: "i < (2::nat)" "map_of (welsh_powell ?adj) (?order ! i) = Some 1"
      by blast
    then have "i = 0 \<or> i = 1" by auto
    then show ?thesis using i(2) unfolding v by auto
  qed
  show ?thesis using v s12 cC c(2) cA c1 by blast
qed

text \<open>
  Claim C7. The function is a composition of loops over finite lists, so it returns for
  every adjacency. Where a vertex is listed among its own neighbours, that vertex is
  coloured all the same, every vertex is a key of the result, and every listed pair of two
  different vertices joins different colours: the loop on itself is ignored.
\<close>

theorem welsh_powell_self_loop:
  assumes "(v, v) \<in> edges_of adj"
  shows "(\<exists>c. map_of (welsh_powell adj) v = Some c)
     \<and> fst ` set (welsh_powell adj) = fst ` set adj \<union> snd ` edges_of adj
     \<and> (\<forall>(a, b) \<in> edges_of adj. a \<noteq> b \<longrightarrow>
          (\<exists>ca cb. map_of (welsh_powell adj) a = Some ca
             \<and> map_of (welsh_powell adj) b = Some cb \<and> ca \<noteq> cb))"
proof -
  have "v \<in> set (vertices_of adj)" using assms edge_endpoints by blast
  then have "\<exists>c. map_of (welsh_powell adj) v = Some c" by (rule map_of_welsh_powell_Some)
  moreover have "fst ` set (welsh_powell adj) = fst ` set adj \<union> snd ` edges_of adj"
    by (simp add: keys_welsh_powell set_vertices_of)
  moreover have "\<forall>(a, b) \<in> edges_of adj. a \<noteq> b \<longrightarrow>
          (\<exists>ca cb. map_of (welsh_powell adj) a = Some ca
             \<and> map_of (welsh_powell adj) b = Some cb \<and> ca \<noteq> cb)"
    using welsh_powell_differs [of _ _ adj] by blast
  ultimately show ?thesis by blast
qed

theorem welsh_powell_self_loop_witness:
  "welsh_powell [(''A'', [''A'', ''B'']), (''B'', [''A''])] = [(''A'', 1), (''B'', 2)]
   \<and> (\<exists>c. map_of (welsh_powell [(''A'', [''A'', ''B'']), (''B'', [''A''])]) ''A'' = Some c)"
proof -
  have "welsh_powell [(''A'', [''A'', ''B'']), (''B'', [''A''])] = [(''A'', 1), (''B'', 2)]"
    by code_simp
  moreover have "(''A'', ''A'') \<in> edges_of [(''A'', [''A'', ''B'']), (''B'', [''A''])]"
    by (simp add: edges_of_def)
  from welsh_powell_self_loop [OF this]
  have "\<exists>c. map_of (welsh_powell [(''A'', [''A'', ''B'']), (''B'', [''A''])]) ''A'' = Some c"
    by blast
  ultimately show ?thesis by blast
qed

text \<open>
  Claim C9. Equal conflict graphs give equal results: two adjacencies with the same keys and
  the same listed pairs, in whatever order their items and neighbours are enumerated, are
  mapped to the same dictionary, items in the same order. The function reads nothing but
  its argument.
\<close>

theorem welsh_powell_deterministic:
  assumes keys: "fst ` set adj = fst ` set adj'" and edges: "edges_of adj = edges_of adj'"
  shows "welsh_powell adj = welsh_powell adj'"
proof -
  have V: "set (vertices_of adj') = set (vertices_of adj)"
    using keys edges by (simp add: set_vertices_of)
  have "fst ` set (full_of adj') = set (vertices_of adj)"
    using map_fst_full_of [of adj'] V by (metis set_map)
  moreover have "\<forall>a \<in> set (vertices_of adj). set (lookup (full_of adj') a) = sym_nbrs adj a"
    using V edges by (simp add: lookup_full_of sym_nbrs_def)
  ultimately have "fst (fold (outer_step (full_of adj') (order_of (full_of adj')))
      (order_of (full_of adj')) ([], 1)) = welsh_powell adj"
    using wf_full_of [of adj'] by (intro welsh_powell_arrangement)
  then show ?thesis by (simp add: welsh_powell_def Let_def)
qed

theorem welsh_powell_deterministic_witness:
  "welsh_powell [(''A'', [''B'', ''C'']), (''B'', [''A'']), (''C'', [''A''])]
   = welsh_powell [(''C'', [''A'']), (''A'', [''C'', ''B'']), (''B'', [''A''])]"
proof -
  have "fst ` set [(''A'', [''B'', ''C'']), (''B'', [''A'']), (''C'', [''A''])]
      = fst ` set [(''C'', [''A'']), (''A'', [''C'', ''B'']), (''B'', [''A''])]"
    by auto
  moreover have "edges_of [(''A'', [''B'', ''C'']), (''B'', [''A'']), (''C'', [''A''])]
      = edges_of [(''C'', [''A'']), (''A'', [''C'', ''B'']), (''B'', [''A''])]"
    by (auto simp: edges_of_def)
  ultimately show ?thesis by (rule welsh_powell_deterministic)
qed

text \<open>
  Claim C10. The adjacency need be neither symmetric nor closed under its neighbour
  collections. The keys of \<open>full\<close> are all keys and all neighbours of the argument; the set
  stored under a vertex holds its neighbours in both directions; a vertex that is never a
  key is coloured; and the two ends of every pair, read in either direction, have different
  colours whenever they are different vertices.
\<close>

theorem welsh_powell_symmetrized:
  "fst ` set (full_of adj) = fst ` set adj \<union> snd ` edges_of adj
   \<and> (\<forall>a \<in> fst ` set (full_of adj).
        set (lookup (full_of adj) a) = {b. (a, b) \<in> edges_of adj \<or> (b, a) \<in> edges_of adj})
   \<and> fst ` set (welsh_powell adj) = fst ` set adj \<union> snd ` edges_of adj
   \<and> (\<forall>a b. ((a, b) \<in> edges_of adj \<or> (b, a) \<in> edges_of adj) \<and> a \<noteq> b \<longrightarrow>
        (\<exists>ca cb. map_of (welsh_powell adj) a = Some ca
           \<and> map_of (welsh_powell adj) b = Some cb \<and> ca \<noteq> cb))"
proof -
  have k: "fst ` set (full_of adj) = set (vertices_of adj)"
    using map_fst_full_of [of adj] by (metis set_map)
  have "\<forall>a \<in> fst ` set (full_of adj).
        set (lookup (full_of adj) a) = {b. (a, b) \<in> edges_of adj \<or> (b, a) \<in> edges_of adj}"
    unfolding k by (simp add: lookup_full_of sym_nbrs_eq)
  moreover have "\<forall>a b. ((a, b) \<in> edges_of adj \<or> (b, a) \<in> edges_of adj) \<and> a \<noteq> b \<longrightarrow>
        (\<exists>ca cb. map_of (welsh_powell adj) a = Some ca
           \<and> map_of (welsh_powell adj) b = Some cb \<and> ca \<noteq> cb)"
    using welsh_powell_differs [of _ _ adj] by blast
  ultimately show ?thesis
    by (simp add: k keys_welsh_powell set_vertices_of)
qed

theorem welsh_powell_symmetrized_witness:
  "''B'' \<notin> fst ` set [(''A'', [''B'']), (''C'', [''A''])]
   \<and> (''B'', ''A'') \<notin> edges_of [(''A'', [''B'']), (''C'', [''A''])]
   \<and> ''B'' \<in> fst ` set (welsh_powell [(''A'', [''B'']), (''C'', [''A''])])
   \<and> (\<exists>ca cb. map_of (welsh_powell [(''A'', [''B'']), (''C'', [''A''])]) ''B'' = Some ca
         \<and> map_of (welsh_powell [(''A'', [''B'']), (''C'', [''A''])]) ''A'' = Some cb
         \<and> ca \<noteq> cb)"
proof -
  let ?adj = "[(''A'', [''B'']), (''C'', [''A''])]"
  have e: "edges_of ?adj = {(''A'', ''B''), (''C'', ''A'')}" by (simp add: edges_of_def)
  have t: "fst ` set (welsh_powell ?adj) = fst ` set ?adj \<union> snd ` edges_of ?adj"
    and p: "\<forall>a b. ((a, b) \<in> edges_of ?adj \<or> (b, a) \<in> edges_of ?adj) \<and> a \<noteq> b \<longrightarrow>
        (\<exists>ca cb. map_of (welsh_powell ?adj) a = Some ca
           \<and> map_of (welsh_powell ?adj) b = Some cb \<and> ca \<noteq> cb)"
    using welsh_powell_symmetrized [of ?adj] by blast+
  have "''B'' \<in> fst ` set (welsh_powell ?adj)" unfolding t e by simp
  moreover have "((''B'', ''A'') \<in> edges_of ?adj \<or> (''A'', ''B'') \<in> edges_of ?adj) \<and> ''B'' \<noteq> ''A''"
    unfolding e by simp
  then have "\<exists>ca cb. map_of (welsh_powell ?adj) ''B'' = Some ca
         \<and> map_of (welsh_powell ?adj) ''A'' = Some cb \<and> ca \<noteq> cb"
    using p by blast
  moreover have "''B'' \<notin> fst ` set ?adj" by simp
  moreover have "(''B'', ''A'') \<notin> edges_of ?adj" unfolding e by simp
  ultimately show ?thesis by blast
qed

section \<open>Properties of the schedule mapper\<close>

text \<open>
  Claim C8. For a dictionary \<open>coloring\<close> (no key twice) the mapper returns one row per exam,
  each with the exam's slot and with \<open>start = slot_start_hour + (slot - 1) * slot_duration\<close>,
  in ascending order of the pair of slot and exam identifier.
\<close>

theorem schedule_from_coloring_rows:
  assumes "distinct (map fst coloring)"
  shows "length (schedule_from_coloring coloring h d) = length coloring
    \<and> distinct (map Exam (schedule_from_coloring coloring h d))
    \<and> set (map Exam (schedule_from_coloring coloring h d)) = fst ` set coloring
    \<and> (\<forall>r \<in> set (schedule_from_coloring coloring h d).
          map_of coloring (Exam r) = Some (Slot r) \<and> start r = h + (Slot r - 1) * d)
    \<and> sorted (map (\<lambda>r. (Slot r, Exam r)) (schedule_from_coloring coloring h d))"
proof -
  let ?rows = "schedule_from_coloring coloring h d"
  let ?items = "sort_key (\<lambda>x. (snd x, fst x)) coloring"
  have f: "map (\<lambda>r. (Exam r, Slot r)) ?rows = ?items" by (rule schedule_fields)
  have e: "map Exam ?rows = map fst ?items"
    using arg_cong [OF f, of "map fst"] by (simp add: comp_def)
  have "mset (map fst ?items) = mset (map fst coloring)" by simp
  then have dist: "distinct (map fst ?items)"
    using assms mset_eq_imp_distinct_iff by blast
  have s: "map (\<lambda>r. (Slot r, Exam r)) ?rows = map (\<lambda>x. (snd x, fst x)) ?items"
    using arg_cong [OF f, of "map (\<lambda>x. (snd x, fst x))"] by (simp add: comp_def)
  have rows: "\<forall>r \<in> set ?rows.
      map_of coloring (Exam r) = Some (Slot r) \<and> start r = h + (Slot r - 1) * d"
    using assms schedule_row [of _ coloring h d] by auto
  have "set (map Exam ?rows) = fst ` set coloring" by (simp add: e)
  moreover have "sorted (map (\<lambda>r. (Slot r, Exam r)) ?rows)"
    unfolding s by (rule sorted_sort_key)
  ultimately show ?thesis using dist rows by (simp add: length_schedule e)
qed

theorem schedule_from_coloring_rows_witness:
  "schedule_from_coloring [(''A'', 2), (''B'', 1), (''C'', 1)] 9 2 =
     [\<lparr>Exam = ''B'', Slot = 1, start = 9, duration = 2, TimeLabel = ''Slot 1 (09:00 - 11:00)''\<rparr>,
      \<lparr>Exam = ''C'', Slot = 1, start = 9, duration = 2, TimeLabel = ''Slot 1 (09:00 - 11:00)''\<rparr>,
      \<lparr>Exam = ''A'', Slot = 2, start = 11, duration = 2, TimeLabel = ''Slot 2 (11:00 - 13:00)''\<rparr>]
   \<and> sorted (map (\<lambda>r. (Slot r, Exam r))
        (schedule_from_coloring [(''A'', 2), (''B'', 1), (''C'', 1)] 9 2))
   \<and> distinct (map Exam (schedule_from_coloring [(''A'', 2), (''B'', 1), (''C'', 1)] 9 2))"
proof -
  have v: "schedule_from_coloring [(''A'', 2), (''B'', 1), (''C'', 1)] 9 2 =
     [\<lparr>Exam = ''B'', Slot = 1, start = 9, duration = 2, TimeLabel = ''Slot 1 (09:00 - 11:00)''\<rparr>,
      \<lparr>Exam = ''C'', Slot = 1, start = 9, duration = 2, TimeLabel = ''Slot 1 (09:00 - 11:00)''\<rparr>,
      \<lparr>Exam = ''A'', Slot = 2, start = 11, duration = 2, TimeLabel = ''Slot 2 (11:00 - 13:00)''\<rparr>]"
    by code_simp
  have "distinct (map fst [(''A'', 2::int), (''B'', 1), (''C'', 1)])" by simp
  from schedule_from_coloring_rows [OF this, of 9 2] v show ?thesis by blast
qed

text \<open>
  Claim C3 says that a non-positive \<open>slot_duration\<close> is rejected with a configuration
  error. The function has no test of its parameters and no error to return: with duration 0
  it returns two rows with the same empty window.
\<close>

theorem schedule_nonpositive_duration_counterexample:
  "schedule_from_coloring [(''A'', 1), (''B'', 2)] 9 0 =
     [\<lparr>Exam = ''A'', Slot = 1, start = 9, duration = 0, TimeLabel = ''Slot 1 (09:00 - 09:00)''\<rparr>,
      \<lparr>Exam = ''B'', Slot = 2, start = 9, duration = 0, TimeLabel = ''Slot 2 (09:00 - 09:00)''\<rparr>]"
  by code_simp

text \<open>
  Claim C3, amended. For a non-positive \<open>slot_duration\<close> the mapper returns a schedule all the
  same: one row per item, each with the duration as given and the start computed from it, so
  that a later slot never starts after an earlier one. The range of the parameters is left
  to the caller.
\<close>

theorem schedule_unvalidated:
  assumes "d \<le> 0"
  shows "length (schedule_from_coloring coloring h d) = length coloring
    \<and> (\<forall>r \<in> set (schedule_from_coloring coloring h d).
          duration r = d \<and> start r = h + (Slot r - 1) * d)
    \<and> (\<forall>r1 \<in> set (schedule_from_coloring coloring h d).
        \<forall>r2 \<in> set (schedule_from_coloring coloring h d).
          Slot r1 \<le> Slot r2 \<longrightarrow> start r2 \<le> start r1)"
proof -
  have "start r2 \<le> start r1"
    if "r1 \<in> set (schedule_from_coloring coloring h d)"
      and "r2 \<in> set (schedule_from_coloring coloring h d)" and "Slot r1 \<le> Slot r2" for r1 r2
  proof -
    have "start r1 = h + (Slot r1 - 1) * d" "start r2 = h + (Slot r2 - 1) * d"
      using that schedule_row by blast+
    moreover have "(Slot r2 - 1) * d \<le> (Slot r1 - 1) * d"
      using that(3) assms by (intro mult_right_mono_neg) simp_all
    ultimately show ?thesis by simp
  qed
  then show ?thesis using schedule_row [of _ coloring h d] by (simp add: length_schedule)
qed

theorem schedule_unvalidated_witness:
  "length (schedule_from_coloring [(''A'', 1), (''B'', 2)] 9 (- 2)) = 2
   \<and> map start (schedule_from_coloring [(''A'', 1), (''B'', 2)] 9 (- 2)) = [9, 7]
   \<and> map duration (schedule_from_coloring [(''A'', 1), (''B'', 2)] 9 (- 2)) = [- 2, - 2]"
proof -
  have "map start (schedule_from_coloring [(''A'', 1), (''B'', 2)] 9 (- 2)) = [9, 7]"
    and "map duration (schedule_from_coloring [(''A'', 1), (''B'', 2)] 9 (- 2)) = [- 2, - 2]"
    by code_simp+
  moreover have "(- 2 :: int) \<le> 0" by simp
  from schedule_unvalidated [OF this, of "[(''A'', 1), (''B'', 2)]" 9]
  have "length (schedule_from_coloring [(''A'', 1), (''B'', 2)] 9 (- 2)) = 2"
    by simp
  ultimately show ?thesis by blast
qed

section \<open>Properties of the conflict graph builder\<close>

text \<open>
  The builder adds every pair in both directions, so its graph is symmetric for every
  enrollment mapping. A pair of an exam with itself arises only from a list that repeats the
  exam; no test excludes it.
\<close>

lemma fold_concat_list: "fold f (concat xss) s = fold (\<lambda>xs. fold f xs) xss s"
  by (induction xss arbitrary: s) simp_all

lemma add_student_pairs:
  "add_student courses conflicts = fold add_pair (index_pairs courses) conflicts"
  by (simp add: add_student_def index_pairs_def fold_concat_list fold_map comp_def
      add_pair_def [abs_def] Let_def)

lemma fold_students_pairs:
  "fold (\<lambda>(student, courses) conflicts. add_student courses conflicts) enrollments conflicts
     = fold add_pair (all_pairs enrollments) conflicts"
  by (induction enrollments arbitrary: conflicts)
    (auto simp: all_pairs_def add_student_pairs)

lemma set_index_pairs:
  "set (index_pairs courses) = {(courses ! i, courses ! j) | i j. i < j \<and> j < length courses}"
proof (intro set_eqI iffI)
  fix p assume "p \<in> set (index_pairs courses)"
  then have "\<exists>i j. p = (courses ! i, courses ! j) \<and> i < j \<and> j < length courses"
    unfolding index_pairs_def by (clarsimp simp: set_concat) (metis Suc_le_lessD)
  then show "p \<in> {(courses ! i, courses ! j) | i j. i < j \<and> j < length courses}" by blast
next
  fix p assume "p \<in> {(courses ! i, courses ! j) | i j. i < j \<and> j < length courses}"
  then obtain i j where p: "p = (courses ! i, courses ! j)" and ij: "i < j" "j < length courses"
    by blast
  let ?row = "\<lambda>i. map (\<lambda>j. (courses ! i, courses ! j)) [i + 1 ..< length courses]"
  have "j \<in> set [i + 1 ..< length courses]" using ij by simp
  then have "(courses ! i, courses ! j) \<in> set (?row i)"
    unfolding set_map by (rule imageI)
  moreover have "i \<in> set [0 ..< length courses]" using ij by simp
  then have "?row i \<in> set (map ?row [0 ..< length courses])"
    unfolding set_map by (rule imageI)
  ultimately show "p \<in> set (index_pairs courses)"
    unfolding index_pairs_def set_concat p by (rule UN_I [rotated])
qed

lemma index_pairs_subset:
  assumes "(a, b) \<in> set (index_pairs courses)"
  shows "a \<in> set courses \<and> b \<in> set courses"
proof -
  obtain i j where "a = courses ! i" "b = courses ! j" "i < j" "j < length courses"
    using assms unfolding set_index_pairs by blast
  then show ?thesis by simp
qed

lemma index_pairs_distinct:
  assumes "distinct courses"
  shows "(a, a) \<notin> set (index_pairs courses)"
proof
  assume "(a, a) \<in> set (index_pairs courses)"
  then obtain i j where "a = courses ! i" "a = courses ! j" "i < j" "j < length courses"
    unfolding set_index_pairs by blast
  then show False using assms by (simp add: nth_eq_iff_index_eq)
qed

lemma all_pairs_subset:
  "(a, b) \<in> set (all_pairs enrollments) \<Longrightarrow>
   a \<in> set (concat (map snd enrollments)) \<and> b \<in> set (concat (map snd enrollments))"
proof -
  assume "(a, b) \<in> set (all_pairs enrollments)"
  then obtain student courses where sc: "(student, courses) \<in> set enrollments"
      and ab: "(a, b) \<in> set (index_pairs courses)"
    by (auto simp: all_pairs_def)
  have "set courses \<subseteq> set (concat (map snd enrollments))" using sc by force
  then show ?thesis using index_pairs_subset [OF ab] by blast
qed

lemma map_fst_fold_pairs: "map fst (fold add_pair ps d) = map fst d"
  by (induction ps arbitrary: d) (simp_all add: add_pair_def map_fst_dict_add)

lemma wf_fold_pairs: "wf_dict d \<Longrightarrow> wf_dict (fold add_pair ps d)"
  by (induction ps arbitrary: d) (simp_all add: add_pair_def wf_dict_add)

lemma nbrs_fold_pairs:
  "fst ` set ps \<union> snd ` set ps \<subseteq> fst ` set d \<Longrightarrow>
   nbrs (fold add_pair ps d) x = nbrs d x \<union> {y. (x, y) \<in> set ps \<or> (y, x) \<in> set ps}"
proof (induction ps arbitrary: d)
  case Nil
  then show ?case by simp
next
  case (Cons p ps)
  obtain a b where p: "p = (a, b)" by (cases p)
  have keys: "fst ` set (add_pair p d) = fst ` set d"
    by (simp add: add_pair_def keys_dict_add)
  have ab: "a \<in> fst ` set d" "b \<in> fst ` set d" using Cons.prems by (auto simp: p)
  have "nbrs (fold add_pair ps (add_pair p d)) x
      = nbrs (add_pair p d) x \<union> {y. (x, y) \<in> set ps \<or> (y, x) \<in> set ps}"
    using Cons.prems by (intro Cons.IH) (auto simp: keys)
  moreover have "nbrs (add_pair p d) x = nbrs d x \<union> {y. (x = a \<and> y = b) \<or> (y = a \<and> x = b)}"
    using ab by (auto simp: add_pair_def p nbrs_dict_add keys_dict_add)
  ultimately show ?case by (auto simp: p)
qed

lemma build_conflicts_pairs:
  "build_conflicts_from_enrollments enrollments =
     fold add_pair (all_pairs enrollments)
       (map (\<lambda>e. (e, [])) (sort (remdups (concat (map snd enrollments)))))"
  by (simp add: build_conflicts_from_enrollments_def Let_def fold_students_pairs)

lemma build_conflicts_keys:
  "map fst (build_conflicts_from_enrollments enrollments)
     = sort (remdups (concat (map snd enrollments)))"
  by (simp add: build_conflicts_pairs map_fst_fold_pairs comp_def)

lemma build_conflicts_wf: "wf_dict (build_conflicts_from_enrollments enrollments)"
  unfolding build_conflicts_pairs
  by (rule wf_fold_pairs) (simp add: wf_dict_def comp_def)

lemma build_conflicts_nbrs:
  "nbrs (build_conflicts_from_enrollments enrollments) x
     = {y. (x, y) \<in> set (all_pairs enrollments) \<or> (y, x) \<in> set (all_pairs enrollments)}"
proof -
  let ?init = "map (\<lambda>e. (e, [])) (sort (remdups (concat (map snd enrollments))))"
  have "nbrs ?init x = {}"
    by (auto simp: nbrs_def split: option.splits dest!: map_of_SomeD)
  moreover have "fst ` set (all_pairs enrollments) \<union> snd ` set (all_pairs enrollments)
      \<subseteq> fst ` set ?init"
    using all_pairs_subset [of _ _ enrollments] by (force simp: image_image)
  ultimately show ?thesis
    unfolding build_conflicts_pairs using nbrs_fold_pairs [of "all_pairs enrollments" ?init x]
    by simp
qed

lemma edges_of_nbrs: "distinct (map fst d) \<Longrightarrow> (a, b) \<in> edges_of d \<longleftrightarrow> b \<in> nbrs d a"
  by (auto simp: edges_of_iff nbrs_def split: option.splits dest: eq_key_imp_eq_value)

lemma build_conflicts_edges:
  "(a, b) \<in> edges_of (build_conflicts_from_enrollments enrollments)
     \<longleftrightarrow> (a, b) \<in> set (all_pairs enrollments) \<or> (b, a) \<in> set (all_pairs enrollments)"
  using build_conflicts_wf [of enrollments]
  by (simp add: edges_of_nbrs wf_dict_def build_conflicts_nbrs)

lemma build_conflicts_symmetric: "sym (edges_of (build_conflicts_from_enrollments enrollments))"
  by (auto simp: sym_def build_conflicts_edges)

lemma build_conflicts_irreflexive:
  assumes "\<forall>(student, courses) \<in> set enrollments. distinct courses"
  shows "irrefl (edges_of (build_conflicts_from_enrollments enrollments))"
proof -
  have "(a, a) \<notin> set (all_pairs enrollments)" for a
    using assms by (auto simp: all_pairs_def dest: index_pairs_distinct)
  then show ?thesis by (auto simp: irrefl_def build_conflicts_edges)
qed

text \<open>Where no student's list repeats an exam, the built graph satisfies what the colouring
  engine is promised, and the colouring of the built graph is proper.\<close>

lemma build_then_color_proper:
  assumes "\<forall>(student, courses) \<in> set enrollments. distinct courses"
    and "(a, b) \<in> edges_of (build_conflicts_from_enrollments enrollments)"
  shows "\<exists>ca cb.
     map_of (welsh_powell (build_conflicts_from_enrollments enrollments)) a = Some ca
     \<and> map_of (welsh_powell (build_conflicts_from_enrollments enrollments)) b = Some cb
     \<and> ca \<noteq> cb"
proof -
  have "a \<noteq> b"
    using build_conflicts_irreflexive [OF assms(1)] assms(2) by (auto simp: irrefl_def)
  then show ?thesis using assms(2) by (intro welsh_powell_differs) simp_all
qed

text \<open>
  Claim C2. A student whose list holds the same exam twice makes the index pair \<open>i < j\<close> of
  lines 54 to 56 a pair of equal exams, and lines 57 and 58 add the exam to its own set: the
  returned graph has a loop on \<open>Math\<close>.
\<close>

theorem build_conflicts_duplicate_self_loop:
  "build_conflicts_from_enrollments [(''S1'', [''Math'', ''Math''])] = [(''Math'', [''Math''])]"
  by code_simp

end
